theory Spec2Isabelle
  imports Main "HOL-Library.Word"
begin

section \<open>The data of matrix.cpp\<close>

text \<open>
  The program multiplies two square matrices of \<^verbatim>\<open>long\<close>, held in four global arrays
  \<^verbatim>\<open>long matrix_x[DIM][DIM]\<close>. On the LP64 targets that offer pthreads a \<^verbatim>\<open>long\<close> has
  64 bits; its arithmetic is modelled as two's complement with wrap-around (the type
  \<open>64 word\<close>), and an \<^verbatim>\<open>int\<close> expression that is stored into a \<^verbatim>\<open>long\<close> is computed
  on 32 bits and then sign-extended.

  The source fixes the dimension by \<^verbatim>\<open>constexpr int DIM = 1000\<close>. Every function below
  takes the dimension as its first argument \<open>n\<close>, so that the properties are proved for
  every dimension; \<open>DIM\<close> is the value the source uses.

  An array \<^verbatim>\<open>long m[n][n]\<close> is a list of \<open>n\<close> rows, each a list of \<open>n\<close> cells
  (\<open>wf_matrix\<close>).
\<close>

type_synonym long = "64 word"
type_synonym matrix = "long list list"

definition DIM :: nat where
  "DIM = 1000"

record state =
  matrix_a :: matrix
  matrix_b :: matrix
  matrix_b_t :: matrix
  matrix_c :: matrix

record ThreadArgs =
  row_start :: int
  row_end :: int

definition wf_matrix :: "nat \<Rightarrow> matrix \<Rightarrow> bool" where
  "wf_matrix n m \<longleftrightarrow> length m = n \<and> list_all (\<lambda>r. length r = n) m"

definition wf_state :: "nat \<Rightarrow> state \<Rightarrow> bool" where
  "wf_state n s \<longleftrightarrow>
     wf_matrix n (matrix_a s) \<and> wf_matrix n (matrix_b s) \<and>
     wf_matrix n (matrix_b_t s) \<and> wf_matrix n (matrix_c s)"

text \<open>Objects of static storage duration start zeroed.\<close>

definition zero_matrix :: "nat \<Rightarrow> matrix" where
  "zero_matrix n = replicate n (replicate n 0)"

definition zero_state :: "nat \<Rightarrow> state" where
  "zero_state n =
     \<lparr>matrix_a = zero_matrix n, matrix_b = zero_matrix n,
      matrix_b_t = zero_matrix n, matrix_c = zero_matrix n\<rparr>"

text \<open>The assignment \<^verbatim>\<open>m[i][j] = v\<close>.\<close>

definition set_cell :: "matrix \<Rightarrow> nat \<Rightarrow> nat \<Rightarrow> long \<Rightarrow> matrix" where
  "set_cell m i j v = m[i := (m ! i)[j := v]]"

text \<open>The conversion of an \<^verbatim>\<open>int\<close> value to \<^verbatim>\<open>long\<close>.\<close>

definition int_to_long :: "32 word \<Rightarrow> long" where
  "int_to_long x = scast x"

section \<open>Loops\<close>

text \<open>
  \<^verbatim>\<open>for (int i = lo; i < n; ++i) body\<close> with a counter that starts at a value that is not
  negative: the counter runs over \<open>lo, lo + 1, \<dots>, n - 1\<close>.
\<close>

function for_loop :: "nat \<Rightarrow> nat \<Rightarrow> (nat \<Rightarrow> 'a \<Rightarrow> 'a) \<Rightarrow> 'a \<Rightarrow> 'a" where
  "for_loop i n body s = (if i < n then for_loop (Suc i) n body (body i s) else s)"
  by pat_completeness auto
termination
  by (relation "measure (\<lambda>(i, n, body, s). n - i)") auto

declare for_loop.simps [simp del]

section \<open>init\<close>

text \<open>
  \<^verbatim>\<open>
  void init() {
      for (int i = 0; i < DIM; ++i)
          for (int j = 0; j < DIM; ++j) {
              matrix_a[i][j] = i + j;
              matrix_b[i][j] = i - j;
              matrix_c[i][j] = 0;
          }
      for (int i = 0; i < DIM; ++i)
          for (int j = 0; j < DIM; ++j)
              matrix_b_t[j][i] = matrix_b[i][j];
  }
  \<close>
\<close>

definition init_cell :: "nat \<Rightarrow> nat \<Rightarrow> state \<Rightarrow> state" where
  "init_cell i j s =
     s\<lparr>matrix_a := set_cell (matrix_a s) i j (int_to_long (of_nat i + of_nat j)),
       matrix_b := set_cell (matrix_b s) i j (int_to_long (of_nat i - of_nat j)),
       matrix_c := set_cell (matrix_c s) i j 0\<rparr>"

definition transpose_cell :: "nat \<Rightarrow> nat \<Rightarrow> state \<Rightarrow> state" where
  "transpose_cell i j s =
     s\<lparr>matrix_b_t := set_cell (matrix_b_t s) j i (matrix_b s ! i ! j)\<rparr>"

definition init :: "nat \<Rightarrow> state \<Rightarrow> state" where
  "init n s =
     for_loop 0 n (\<lambda>i. for_loop 0 n (\<lambda>j. transpose_cell i j))
       (for_loop 0 n (\<lambda>i. for_loop 0 n (\<lambda>j. init_cell i j)) s)"

section \<open>multiply and multiply_range\<close>

text \<open>
  The innermost loop of both routines:
  \<^verbatim>\<open>
  long sum = 0;
  for (int k = 0; k < DIM; ++k) sum += arow[k] * browt[k];
  \<close>
  where \<^verbatim>\<open>arow\<close> points to row \<open>i\<close> of \<^verbatim>\<open>matrix_a\<close> and \<^verbatim>\<open>browt\<close> to row \<open>j\<close> of
  \<^verbatim>\<open>matrix_b_t\<close>. There is no test for overflow.
\<close>

definition inner_product :: "nat \<Rightarrow> state \<Rightarrow> nat \<Rightarrow> nat \<Rightarrow> long" where
  "inner_product n s i j =
     for_loop 0 n (\<lambda>k sum. sum + (matrix_a s ! i) ! k * (matrix_b_t s ! j) ! k) 0"

text \<open>The body of the loop over \<open>j\<close>: \<^verbatim>\<open>matrix_c[i][j] = sum\<close>.\<close>

definition compute_cell :: "nat \<Rightarrow> nat \<Rightarrow> nat \<Rightarrow> state \<Rightarrow> state" where
  "compute_cell n i j s = s\<lparr>matrix_c := set_cell (matrix_c s) i j (inner_product n s i j)\<rparr>"

definition compute_row :: "nat \<Rightarrow> nat \<Rightarrow> state \<Rightarrow> state" where
  "compute_row n i s = for_loop 0 n (\<lambda>j. compute_cell n i j) s"

text \<open>The serial routine \<^verbatim>\<open>multiply()\<close>: all rows from 0 to \<open>DIM - 1\<close>.\<close>

definition multiply :: "nat \<Rightarrow> state \<Rightarrow> state" where
  "multiply n s = for_loop 0 n (\<lambda>i. compute_row n i) s"

text \<open>
  The worker \<^verbatim>\<open>multiply_range\<close>: after the barrier,
  \<^verbatim>\<open>for (int i = a->row_start; i < a->row_end; ++i)\<close> computes row \<open>i\<close>. The bounds come
  from the argument and are \<^verbatim>\<open>int\<close>s. A row index outside the arrays is undefined behaviour
  in C++: the model returns \<open>None\<close> there.
\<close>

function range_loop :: "nat \<Rightarrow> int \<Rightarrow> int \<Rightarrow> state \<Rightarrow> state option" where
  "range_loop n i e s =
     (if i < e then
        (if 0 \<le> i \<and> i < int n then range_loop n (i + 1) e (compute_row n (nat i) s)
         else None)
      else Some s)"
  by pat_completeness auto
termination
  by (relation "measure (\<lambda>(n, i, e, s). nat (e - i))") auto

declare range_loop.simps [simp del]

definition multiply_range :: "nat \<Rightarrow> ThreadArgs \<Rightarrow> state \<Rightarrow> state option" where
  "multiply_range n a s = range_loop n (row_start a) (row_end a) s"

section \<open>main: the worker count and the row ranges\<close>

text \<open>
  \<^verbatim>\<open>std::atoi\<close> belongs to the C library. Its contract (ISO C, \<^verbatim>\<open>strtol\<close> in base 10): skip
  leading white space, read an optional sign, then the longest run of decimal digits; the
  result is 0 when there is no digit; the behaviour is undefined when the value is not
  representable in an \<^verbatim>\<open>int\<close> (\<open>None\<close> in the model).
\<close>

definition INT_MAX :: int where
  "INT_MAX = 2147483647"

definition INT_MIN :: int where
  "INT_MIN = - 2147483648"

definition isspace :: "char \<Rightarrow> bool" where
  "isspace c \<longleftrightarrow> of_char c \<in> {32 :: nat, 9, 10, 11, 12, 13}"

definition isdigit :: "char \<Rightarrow> bool" where
  "isdigit c \<longleftrightarrow> (48 :: nat) \<le> of_char c \<and> of_char c \<le> (57 :: nat)"

definition digit_val :: "char \<Rightarrow> int" where
  "digit_val c = int (of_char c) - 48"

fun read_digits :: "int \<Rightarrow> string \<Rightarrow> int" where
  "read_digits acc [] = acc"
| "read_digits acc (c # cs) =
     (if isdigit c then read_digits (acc * 10 + digit_val c) cs else acc)"

fun read_sign :: "string \<Rightarrow> bool \<times> string" where
  "read_sign [] = (False, [])"
| "read_sign (c # cs) =
     (if c = CHR ''-'' then (True, cs)
      else if c = CHR ''+'' then (False, cs)
      else (False, c # cs))"

definition atoi :: "string \<Rightarrow> int option" where
  "atoi str =
     (case read_sign (dropWhile isspace str) of
        (neg, ds) \<Rightarrow>
          (let v = read_digits 0 ds; r = (if neg then - v else v)
           in if INT_MIN \<le> r \<and> r \<le> INT_MAX then Some r else None))"

text \<open>
  \<^verbatim>\<open>
  int nthreads = 4;
  if (argc > 1) {
      int parsed = std::atoi(argv[1]);
      if (parsed > 0) nthreads = parsed;
  }
  \<close>
  The command line is the list \<open>argv\<close>, and \<open>argc\<close> is its length.
\<close>

definition parse_nthreads :: "string list \<Rightarrow> int option" where
  "parse_nthreads argv =
     (if length argv > 1 then
        (case atoi (argv ! 1) of
           None \<Rightarrow> None
         | Some parsed \<Rightarrow> Some (if parsed > 0 then parsed else 4))
      else Some 4)"

text \<open>\<^verbatim>\<open>if (nthreads > DIM) nthreads = DIM;\<close>\<close>

definition clamp_nthreads :: "nat \<Rightarrow> int \<Rightarrow> int" where
  "clamp_nthreads n nthreads = (if nthreads > int n then int n else nthreads)"

text \<open>
  \<^verbatim>\<open>
  int base = DIM / nthreads;
  int rem = DIM % nthreads;
  int start = 0;
  for (int t = 0; t < nthreads; ++t) {
      int rows = base + (t < rem ? 1 : 0);
      int end = start + rows;
      targs[t].row_start = start;
      targs[t].row_end = end;
      ...
      start = end;
  }
  \<close>
  The values stay between 0 and \<open>DIM\<close>, so \<open>int\<close> stands for the \<^verbatim>\<open>int\<close> of the source.
  At this point of \<^verbatim>\<open>main\<close> \<open>nthreads\<close> is at least 1 (it is a positive number clamped to
  \<open>DIM\<close>, and \<open>DIM\<close> is positive), where the truncating division of C++ and \<open>div\<close> agree
  and there is no division by zero; the properties below are stated for such \<open>nthreads\<close>.
\<close>

function make_ranges :: "int \<Rightarrow> int \<Rightarrow> int \<Rightarrow> int \<Rightarrow> int \<Rightarrow> ThreadArgs list" where
  "make_ranges nthreads base rem t start =
     (if t < nthreads then
        (let rows = base + (if t < rem then 1 else 0);
             end = start + rows
         in \<lparr>row_start = start, row_end = end\<rparr> # make_ranges nthreads base rem (t + 1) end)
      else [])"
  by pat_completeness auto
termination
  by (relation "measure (\<lambda>(nthreads, base, rem, t, start). nat (nthreads - t))") auto

declare make_ranges.simps [simp del]

definition partition_rows :: "nat \<Rightarrow> int \<Rightarrow> ThreadArgs list" where
  "partition_rows n nthreads =
     make_ranges nthreads (int n div nthreads) (int n mod nthreads) 0 0"

text \<open>
  The workers run concurrently. Each reads \<^verbatim>\<open>matrix_a\<close> and \<^verbatim>\<open>matrix_b_t\<close> and writes
  its own rows of \<^verbatim>\<open>matrix_c\<close>; \<open>run_workers\<close> runs them one after the other, in the
  order of their creation. The section on interleaved runs below shows that every other
  schedule of the workers ends in the same state.
\<close>

fun run_workers :: "nat \<Rightarrow> ThreadArgs list \<Rightarrow> state \<Rightarrow> state option" where
  "run_workers n [] s = Some s"
| "run_workers n (a # as) s =
     (case multiply_range n a s of None \<Rightarrow> None | Some s' \<Rightarrow> run_workers n as s')"

definition parallel_multiply :: "nat \<Rightarrow> int \<Rightarrow> state \<Rightarrow> state option" where
  "parallel_multiply n nthreads s = run_workers n (partition_rows n nthreads) s"

text \<open>
  \<^verbatim>\<open>main\<close> as a whole, without the clock and the output files. The pthread calls succeed
  or fail as the environment decides (\<open>env\<close>); a failure of \<^verbatim>\<open>pthread_barrier_init\<close>,
  \<^verbatim>\<open>pthread_create\<close> or \<^verbatim>\<open>pthread_join\<close> ends the run with \<^verbatim>\<open>return 1\<close> (\<open>Failed\<close>);
  otherwise the run ends with \<^verbatim>\<open>return 0\<close> and the matrices the workers leave
  (\<open>Finished\<close>). The arrays start zeroed (\<open>zero_state\<close>).
\<close>

datatype outcome = Finished state | Failed

record env =
  barrier_init_ok :: bool
  create_ok :: "int \<Rightarrow> bool"
  join_ok :: "int \<Rightarrow> bool"

definition main :: "env \<Rightarrow> nat \<Rightarrow> string list \<Rightarrow> outcome option" where
  "main ev n argv =
     (let s = init n (zero_state n) in
      case parse_nthreads argv of
        None \<Rightarrow> None
      | Some parsed \<Rightarrow>
          (let nthreads = clamp_nthreads n parsed in
           if \<not> barrier_init_ok ev then Some Failed
           else if \<not> list_all (create_ok ev) [0..nthreads - 1] then Some Failed
           else
             (case run_workers n (partition_rows n nthreads) s of
                None \<Rightarrow> None
              | Some s' \<Rightarrow>
                  if \<not> list_all (join_ok ev) [0..nthreads - 1] then Some Failed
                  else Some (Finished s'))))"

text \<open>An environment in which every pthread call succeeds.\<close>

definition all_ok :: env where
  "all_ok = \<lparr>barrier_init_ok = True, create_ok = (\<lambda>t. True), join_ok = (\<lambda>t. True)\<rparr>"

section \<open>Notions of the specification\<close>

text \<open>The value of a string of decimal digits, by position.\<close>

definition decimal_value :: "string \<Rightarrow> int" where
  "decimal_value ds = (\<Sum>i<length ds. digit_val (ds ! i) * 10 ^ (length ds - 1 - i))"

text \<open>
  An argument that is unparsable as an integer: after the white space and the optional
  sign there is no digit.
\<close>

definition unparsable :: "string \<Rightarrow> bool" where
  "unparsable str \<longleftrightarrow>
     (case snd (read_sign (dropWhile isspace str)) of [] \<Rightarrow> True | c # cs \<Rightarrow> \<not> isdigit c)"

text \<open>The values \<^verbatim>\<open>init\<close> stores.\<close>

definition init_values :: "nat \<Rightarrow> state \<Rightarrow> bool" where
  "init_values n s \<longleftrightarrow>
     (\<forall>i<n. \<forall>j<n. (matrix_a s ! i) ! j = int_to_long (of_nat i + of_nat j) \<and>
        (matrix_b s ! i) ! j = int_to_long (of_nat i - of_nat j) \<and> (matrix_c s ! i) ! j = 0)"

section \<open>The matrix product\<close>

definition product_row :: "nat \<Rightarrow> state \<Rightarrow> nat \<Rightarrow> long list" where
  "product_row n s i =
     map (\<lambda>j. \<Sum>k<n. (matrix_a s ! i) ! k * (matrix_b_t s ! j) ! k) [0..<n]"

definition with_rows :: "nat \<Rightarrow> nat set \<Rightarrow> state \<Rightarrow> state" where
  "with_rows n R s =
     s\<lparr>matrix_c := map (\<lambda>r. if r \<in> R then product_row n s r else matrix_c s ! r) [0..<n]\<rparr>"

definition covered :: "ThreadArgs list \<Rightarrow> nat set" where
  "covered as = {r. \<exists>a \<in> set as. row_start a \<le> int r \<and> int r < row_end a}"

definition in_bounds :: "nat \<Rightarrow> ThreadArgs \<Rightarrow> bool" where
  "in_bounds n a \<longleftrightarrow> 0 \<le> row_start a \<and> row_end a \<le> int n"

text \<open>The first row of the range of worker \<open>t\<close>, in closed form.\<close>

definition range_offset :: "int \<Rightarrow> int \<Rightarrow> int \<Rightarrow> int" where
  "range_offset base rem t = t * base + min t rem"

definition range_size :: "ThreadArgs \<Rightarrow> int" where
  "range_size a = row_end a - row_start a"

text \<open>\<^verbatim>\<open>matrix_b_t\<close> holds the transpose of \<^verbatim>\<open>matrix_b\<close>.\<close>

definition is_transposed :: "nat \<Rightarrow> state \<Rightarrow> bool" where
  "is_transposed n s \<longleftrightarrow>
     (\<forall>i \<in> {..<n}. \<forall>j \<in> {..<n}. (matrix_b_t s ! j) ! i = (matrix_b s ! i) ! j)"

text \<open>What a routine that writes only the rows \<open>R\<close> of \<^verbatim>\<open>matrix_c\<close> leaves as it was.\<close>

definition unchanged_outside :: "nat set \<Rightarrow> state \<Rightarrow> state \<Rightarrow> bool" where
  "unchanged_outside R s s' \<longleftrightarrow>
     matrix_a s' = matrix_a s \<and> matrix_b s' = matrix_b s \<and> matrix_b_t s' = matrix_b_t s \<and>
     length (matrix_c s') = length (matrix_c s) \<and>
     (\<forall>r. r \<notin> R \<longrightarrow> matrix_c s' ! r = matrix_c s ! r)"

text \<open>A state in which one inner product exceeds the range of \<^verbatim>\<open>long\<close>.\<close>

definition overflow_state :: state where
  "overflow_state =
     \<lparr>matrix_a = [[4611686018427387904]], matrix_b = [[2]], matrix_b_t = [[2]],
      matrix_c = [[0]]\<rparr>"

section \<open>Interleaved runs of the workers\<close>

text \<open>
  The cells a worker writes, in the order of its two outer loops. The innermost loop
  reads \<^verbatim>\<open>matrix_a\<close> and \<^verbatim>\<open>matrix_b_t\<close> only, which no worker writes, so the
  computation of one cell is taken as one step.
\<close>

definition cells :: "nat \<Rightarrow> ThreadArgs \<Rightarrow> (nat \<times> nat) list" where
  "cells n a =
     concat (map (\<lambda>i. map (\<lambda>j. (i, j)) [0..<n]) [nat (row_start a)..<nat (row_end a)])"

text \<open>
  A schedule is a list of worker numbers: at each step the worker named computes its
  next cell (a worker that has finished, or a number that names no worker, does nothing).
  \<open>run_schedule\<close> returns the cells still to do and the state reached.
\<close>

fun run_schedule ::
  "nat \<Rightarrow> nat list \<Rightarrow> (nat \<times> nat) list list \<Rightarrow> state \<Rightarrow> (nat \<times> nat) list list \<times> state"
where
  "run_schedule n [] qs s = (qs, s)"
| "run_schedule n (w # ws) qs s =
     (if w < length qs then
        (case qs ! w of
           [] \<Rightarrow> run_schedule n ws qs s
         | c # q \<Rightarrow> run_schedule n ws (qs[w := q]) (compute_cell n (fst c) (snd c) s))
      else run_schedule n ws qs s)"

text \<open>
  State \<open>t\<close> is state \<open>s\<close> with the cells \<open>D\<close> of \<^verbatim>\<open>matrix_c\<close> replaced by the inner
  products.
\<close>

definition cells_done :: "nat \<Rightarrow> (nat \<times> nat) set \<Rightarrow> state \<Rightarrow> state \<Rightarrow> bool" where
  "cells_done n D s t \<longleftrightarrow>
     wf_state n t \<and> matrix_a t = matrix_a s \<and> matrix_b t = matrix_b s \<and>
     matrix_b_t t = matrix_b_t s \<and>
     (\<forall>i<n. \<forall>j<n. (matrix_c t ! i) ! j =
        (if (i, j) \<in> D then (\<Sum>k<n. (matrix_a s ! i) ! k * (matrix_b_t s ! j) ! k)
         else (matrix_c s ! i) ! j))"

definition cells_in_bounds :: "nat \<Rightarrow> (nat \<times> nat) list list \<Rightarrow> bool" where
  "cells_in_bounds n qs \<longleftrightarrow> (\<forall>q \<in> set qs. \<forall>c \<in> set q. fst c < n \<and> snd c < n)"

section \<open>Loops and arrays: auxiliary facts\<close>

lemma for_loop_fold: "for_loop i n body s = fold body [i..<n] s"
proof (induction i n body s rule: for_loop.induct)
  case (1 i n body s)
  show ?case
  proof (cases "i < n")
    case True
    with 1 show ?thesis by (simp add: for_loop.simps [of i] upt_conv_Cons)
  next
    case False
    then show ?thesis by (simp add: for_loop.simps [of i])
  qed
qed

lemma for_loop_invariant:
  assumes "P i s" and "i \<le> n"
    and step: "\<And>k t. i \<le> k \<Longrightarrow> k < n \<Longrightarrow> P k t \<Longrightarrow> P (Suc k) (body k t)"
  shows "P n (for_loop i n body s)"
proof -
  have "i \<le> j \<Longrightarrow> j \<le> n \<Longrightarrow> P j t \<Longrightarrow> P n (for_loop j n body t)" for j t
  proof (induction "n - j" arbitrary: j t)
    case 0
    then show ?case by (simp add: for_loop.simps [of j])
  next
    case (Suc d)
    then have "j < n" by simp
    moreover have "P n (for_loop (Suc j) n body (body j t))"
      using Suc by (intro Suc.hyps(1)) (auto intro: step)
    ultimately show ?case by (simp add: for_loop.simps [of j])
  qed
  with assms(1,2) show ?thesis by simp
qed

lemma for_loop_sum:
  "for_loop 0 n (\<lambda>k acc. acc + f k) (0 :: 'a :: comm_monoid_add) = sum f {..<n}"
proof -
  have "fold (\<lambda>k acc. acc + f k) [0..<m] a = a + sum f {..<m}" for m a
    by (induction m) (simp_all add: add.assoc)
  then show ?thesis by (simp add: for_loop_fold)
qed

lemma wf_matrix_nth: "wf_matrix n m \<Longrightarrow> i < n \<Longrightarrow> length (m ! i) = n"
  by (simp add: wf_matrix_def list_all_length)

lemma wf_matrix_length: "wf_matrix n m \<Longrightarrow> length m = n"
  by (simp add: wf_matrix_def)

lemma wf_matrix_set_cell: "wf_matrix n m \<Longrightarrow> wf_matrix n (set_cell m i j v)"
  by (cases "i < length m") (auto simp: wf_matrix_def set_cell_def list_all_length nth_list_update)

lemma set_cell_nth:
  "wf_matrix n m \<Longrightarrow> i < n \<Longrightarrow> j < n \<Longrightarrow> i' < n \<Longrightarrow> j' < n \<Longrightarrow>
   set_cell m i j v ! i' ! j' = (if i' = i \<and> j' = j then v else m ! i' ! j')"
  by (auto simp: wf_matrix_def set_cell_def list_all_length nth_list_update)

section \<open>The rows a run of workers has computed\<close>

lemma inner_product_sum:
  "inner_product n s i j = (\<Sum>k<n. (matrix_a s ! i) ! k * (matrix_b_t s ! j) ! k)"
  unfolding inner_product_def by (rule for_loop_sum)

lemma row_prefix_update:
  assumes "j < length r"
  shows "(map f [0..<j] @ drop j r)[j := v] = map f [0..<j] @ v # drop (Suc j) r"
proof -
  have d: "drop j r = r ! j # drop (Suc j) r"
    using assms by (simp add: Cons_nth_drop_Suc)
  show ?thesis
    by (subst d) (simp add: list_update_append)
qed

lemma compute_row_eq:
  assumes "wf_matrix n (matrix_c s)" and "i < n"
  shows "compute_row n i s = s\<lparr>matrix_c := (matrix_c s)[i := product_row n s i]\<rparr>"
proof -
  define f where "f = (\<lambda>j. \<Sum>k<n. (matrix_a s ! i) ! k * (matrix_b_t s ! j) ! k)"
  define r where "r = matrix_c s ! i"
  define P where
    "P j t \<longleftrightarrow> t = s\<lparr>matrix_c := (matrix_c s)[i := map f [0..<j] @ drop j r]\<rparr>" for j t
  have len: "length (matrix_c s) = n" "length r = n"
    using assms by (simp_all add: r_def wf_matrix_length wf_matrix_nth)
  have "P n (for_loop 0 n (\<lambda>j. compute_cell n i j) s)"
  proof (rule for_loop_invariant)
    show "P 0 s" by (simp add: P_def r_def)
  next
    fix j t assume "j < n" and "P j t"
    then have t: "t = s\<lparr>matrix_c := (matrix_c s)[i := map f [0..<j] @ drop j r]\<rparr>"
      by (simp add: P_def)
    have "inner_product n t i j = f j"
      by (simp add: inner_product_sum f_def t)
    moreover have "(map f [0..<j] @ drop j r)[j := f j] = map f [0..<Suc j] @ drop (Suc j) r"
      using \<open>j < n\<close> len by (simp add: row_prefix_update)
    ultimately show "P (Suc j) (compute_cell n i j t)"
      using assms(2) len by (simp add: P_def compute_cell_def set_cell_def t)
  qed simp
  then show ?thesis
    using len by (simp add: P_def compute_row_def product_row_def f_def)
qed

lemma wf_product_row: "length (product_row n s i) = n"
  by (simp add: product_row_def)

lemma product_row_matrix_c [simp]: "product_row n (s\<lparr>matrix_c := c\<rparr>) i = product_row n s i"
  by (simp add: product_row_def)

lemma wf_with_rows: "wf_state n s \<Longrightarrow> wf_state n (with_rows n R s)"
  by (auto simp: wf_state_def with_rows_def wf_matrix_def list_all_length product_row_def)

lemma with_rows_cong:
  "(\<And>r. r < n \<Longrightarrow> r \<in> R \<longleftrightarrow> r \<in> R') \<Longrightarrow> with_rows n R s = with_rows n R' s"
  by (simp add: with_rows_def)

lemma with_rows_empty: "wf_state n s \<Longrightarrow> with_rows n {} s = s"
proof -
  assume "wf_state n s"
  then have "length (matrix_c s) = n" by (simp add: wf_state_def wf_matrix_def)
  then have "map (\<lambda>r. matrix_c s ! r) [0..<n] = matrix_c s" using map_nth [of "matrix_c s"] by simp
  then show ?thesis by (simp add: with_rows_def)
qed

lemma compute_row_with_rows:
  assumes "wf_state n s" and "i < n"
  shows "compute_row n i (with_rows n R s) = with_rows n (insert i R) s"
proof -
  have wf: "wf_matrix n (matrix_c (with_rows n R s))"
    using wf_with_rows [OF assms(1)] by (simp add: wf_state_def)
  have "(map g [0..<n])[i := g' i] = map (\<lambda>r. if r = i then g' r else g r) [0..<n]" for g g' :: "nat \<Rightarrow> long list"
    by (rule nth_equalityI) (auto simp: nth_list_update)
  then have "matrix_c (compute_row n i (with_rows n R s)) = matrix_c (with_rows n (insert i R) s)"
    unfolding compute_row_eq [OF wf assms(2)]
    by (simp add: with_rows_def)
  then show ?thesis
    unfolding compute_row_eq [OF wf assms(2)]
    by (simp add: with_rows_def)
qed


lemma multiply_with_rows:
  assumes "wf_state n s"
  shows "multiply n s = with_rows n {..<n} s"
proof -
  have "for_loop 0 n (\<lambda>i. compute_row n i) s = with_rows n {..<n} s"
  proof (rule for_loop_invariant [where P = "\<lambda>i t. t = with_rows n {..<i} s"])
    show "s = with_rows n {..<0} s"
      using assms by (simp add: with_rows_empty)
  next
    fix k t assume "k < n" and "t = with_rows n {..<k} s"
    then show "compute_row n k t = with_rows n {..<Suc k} s"
      using assms by (simp add: compute_row_with_rows lessThan_Suc)
  qed simp
  then show ?thesis by (simp add: multiply_def)
qed

lemma range_loop_with_rows:
  assumes "wf_state n s"
  shows "0 \<le> i \<Longrightarrow> e \<le> int n \<Longrightarrow>
    range_loop n i e (with_rows n R s) =
      Some (with_rows n (R \<union> {r. i \<le> int r \<and> int r < e}) s)"
proof (induction "nat (e - i)" arbitrary: i R)
  case 0
  then have "R \<union> {r. i \<le> int r \<and> int r < e} = R" and "\<not> i < e" by auto
  then show ?case by (simp only: range_loop.simps [of n i] if_False)
next
  case (Suc d)
  then have lt: "i < e" "i < int n" by auto
  have "range_loop n (i + 1) e (with_rows n (insert (nat i) R) s) =
      Some (with_rows n (insert (nat i) R \<union> {r. i + 1 \<le> int r \<and> int r < e}) s)"
    using Suc by (intro Suc.hyps(1)) auto
  moreover have "insert (nat i) R \<union> {r. i + 1 \<le> int r \<and> int r < e} =
      R \<union> {r. i \<le> int r \<and> int r < e}"
    using lt Suc.prems by auto
  ultimately show ?case
    using lt Suc.prems assms
    by (simp add: range_loop.simps [of n i] compute_row_with_rows)
qed

lemma covered_Cons:
  "covered (a # as) = {r. row_start a \<le> int r \<and> int r < row_end a} \<union> covered as"
  by (auto simp: covered_def)

lemma run_workers_with_rows:
  assumes "wf_state n s"
  shows "list_all (in_bounds n) as \<Longrightarrow>
    run_workers n as (with_rows n R s) = Some (with_rows n (R \<union> covered as) s)"
proof (induction as arbitrary: R)
  case Nil
  then show ?case by (simp add: covered_def)
next
  case (Cons a as)
  then show ?case
    using assms
    by (simp add: multiply_range_def range_loop_with_rows in_bounds_def covered_Cons Un_assoc)
qed

lemma run_workers_eq:
  assumes "wf_state n s" and "list_all (in_bounds n) as"
  shows "run_workers n as s = Some (with_rows n (covered as) s)"
  using run_workers_with_rows [OF assms, of "{}"] assms(1) by (simp add: with_rows_empty)

section \<open>The row ranges in closed form\<close>

lemma range_offset_step:
  "range_offset base rem t + (base + (if t < rem then 1 else 0)) = range_offset base rem (t + 1)"
  by (simp add: range_offset_def algebra_simps min_def)

lemma make_ranges_length: "length (make_ranges nthreads base rem t start) = nat (nthreads - t)"
proof (induction nthreads base rem t start rule: make_ranges.induct)
  case (1 nthreads base rem t start)
  show ?case
  proof (cases "t < nthreads")
    case True
    with 1 show ?thesis
      by (simp add: make_ranges.simps [of nthreads base rem t] Let_def Suc_nat_eq_nat_zadd1 nat_diff_distrib)
  next
    case False
    then show ?thesis by (simp add: make_ranges.simps [of nthreads base rem t])
  qed
qed

lemma make_ranges_unfold:
  "t < nthreads \<Longrightarrow>
   make_ranges nthreads base rem t (range_offset base rem t) =
     \<lparr>row_start = range_offset base rem t, row_end = range_offset base rem (t + 1)\<rparr> #
     make_ranges nthreads base rem (t + 1) (range_offset base rem (t + 1))"
  by (subst make_ranges.simps) (simp add: Let_def range_offset_step)

lemma make_ranges_nth:
  "k < nat (nthreads - t) \<Longrightarrow>
   make_ranges nthreads base rem t (range_offset base rem t) ! k =
     \<lparr>row_start = range_offset base rem (t + int k),
      row_end = range_offset base rem (t + int k + 1)\<rparr>"
proof (induction k arbitrary: t)
  case 0
  then have "t < nthreads" by simp
  then show ?case by (simp add: make_ranges_unfold)
next
  case (Suc k)
  then have lt: "t < nthreads" and "k < nat (nthreads - (t + 1))" by auto
  then have "make_ranges nthreads base rem (t + 1) (range_offset base rem (t + 1)) ! k =
     \<lparr>row_start = range_offset base rem (t + 1 + int k),
      row_end = range_offset base rem (t + 1 + int k + 1)\<rparr>"
    by (intro Suc.IH)
  moreover have "t + 1 + int k = t + int (Suc k)" by simp
  ultimately show ?case
    using lt by (simp only: make_ranges_unfold nth_Cons_Suc)
qed

lemma partition_rows_length: "length (partition_rows n T) = nat T"
  by (simp add: partition_rows_def make_ranges_length)

lemma partition_rows_nth:
  assumes "0 < T" and "t < nat T"
  shows "partition_rows n T ! t =
     \<lparr>row_start = range_offset (int n div T) (int n mod T) (int t),
      row_end = range_offset (int n div T) (int n mod T) (int t + 1)\<rparr>"
proof -
  have "range_offset (int n div T) (int n mod T) 0 = 0"
    using assms(1) by (simp add: range_offset_def)
  then show ?thesis
    using make_ranges_nth [of t T 0 "int n div T" "int n mod T"] assms(2)
    by (simp add: partition_rows_def)
qed

lemma range_offset_zero: "0 < T \<Longrightarrow> range_offset (int n div T) (int n mod T) 0 = 0"
  by (simp add: range_offset_def)

lemma range_offset_last:
  assumes "0 < T"
  shows "range_offset (int n div T) (int n mod T) T = int n"
proof -
  have "int n mod T < T" using assms by simp
  then have "min T (int n mod T) = int n mod T" by linarith
  then show ?thesis by (simp add: range_offset_def)
qed

lemma range_offset_mono:
  "0 \<le> base \<Longrightarrow> s \<le> t \<Longrightarrow> range_offset base rem s \<le> range_offset base rem t"
  unfolding range_offset_def by (intro add_mono mult_right_mono) auto

lemma range_offset_cover:
  assumes "range_offset base rem 0 \<le> r"
  shows "r < range_offset base rem (int m) \<Longrightarrow>
    \<exists>t<m. range_offset base rem (int t) \<le> r \<and> r < range_offset base rem (int t + 1)"
proof (induction m)
  case 0
  with assms show ?case by simp
next
  case (Suc m)
  show ?case
  proof (cases "r < range_offset base rem (int m)")
    case True
    with Suc.IH obtain t where "t < m" "range_offset base rem (int t) \<le> r"
      "r < range_offset base rem (int t + 1)" by blast
    then show ?thesis by (intro exI [of _ t]) simp
  next
    case False
    with Suc.prems show ?thesis by (intro exI [of _ m]) (simp add: add.commute)
  qed
qed

lemma range_offset_size:
  "range_offset base rem (t + 1) - range_offset base rem t = base + (if t < rem then 1 else 0)"
  using range_offset_step [of base rem t] by simp

lemma partition_rows_start:
  "0 < T \<Longrightarrow> t < nat T \<Longrightarrow>
   row_start (partition_rows n T ! t) = range_offset (int n div T) (int n mod T) (int t)"
  by (simp add: partition_rows_nth)

lemma partition_rows_end:
  "0 < T \<Longrightarrow> t < nat T \<Longrightarrow>
   row_end (partition_rows n T ! t) = range_offset (int n div T) (int n mod T) (int t + 1)"
  by (simp add: partition_rows_nth)

lemma partition_rows_size:
  "0 < T \<Longrightarrow> t < nat T \<Longrightarrow>
   range_size (partition_rows n T ! t) = int n div T + (if int t < int n mod T then 1 else 0)"
  by (simp only: range_size_def partition_rows_start partition_rows_end range_offset_size)

lemma partition_rows_disjoint:
  assumes "0 < T" and "t < u" and "u < nat T"
  shows "row_end (partition_rows n T ! t) \<le> row_start (partition_rows n T ! u)"
proof -
  have "0 \<le> int n div T" using assms(1) by (simp add: pos_imp_zdiv_nonneg_iff)
  moreover have "int t + 1 \<le> int u" using assms(2) by simp
  ultimately have "range_offset (int n div T) (int n mod T) (int t + 1)
      \<le> range_offset (int n div T) (int n mod T) (int u)"
    by (rule range_offset_mono)
  then show ?thesis
    using assms by (simp add: partition_rows_start partition_rows_end)
qed

lemma partition_rows_nonempty:
  assumes "0 < T" and "T \<le> int n" and "t < nat T"
  shows "row_start (partition_rows n T ! t) < row_end (partition_rows n T ! t)"
proof -
  have "T div T \<le> int n div T" using assms(1,2) by (intro zdiv_mono1)
  then have "1 \<le> int n div T" using assms(1) by simp
  then have "0 < range_size (partition_rows n T ! t)"
    using assms by (simp add: partition_rows_size)
  then show ?thesis by (simp add: range_size_def)
qed

lemma partition_rows_in_bounds:
  assumes "0 < T" and "t < nat T"
  shows "in_bounds n (partition_rows n T ! t)"
proof -
  let ?off = "range_offset (int n div T) (int n mod T)"
  have base: "0 \<le> int n div T" using assms(1) by (simp add: pos_imp_zdiv_nonneg_iff)
  have "?off 0 \<le> ?off (int t)" using base by (rule range_offset_mono) simp
  moreover have "?off (int t + 1) \<le> ?off T" using base by (rule range_offset_mono) (use assms in linarith)
  ultimately show ?thesis
    using assms by (simp add: in_bounds_def partition_rows_start partition_rows_end
        range_offset_zero range_offset_last)
qed

lemma partition_rows_all_in_bounds: "0 < T \<Longrightarrow> list_all (in_bounds n) (partition_rows n T)"
  by (simp add: list_all_length partition_rows_length partition_rows_in_bounds)

lemma partition_rows_cover:
  assumes "0 < T" and "r < n"
  shows "\<exists>t<nat T. row_start (partition_rows n T ! t) \<le> int r \<and> int r < row_end (partition_rows n T ! t)"
proof -
  let ?off = "range_offset (int n div T) (int n mod T)"
  have "?off 0 \<le> int r" using assms by (simp add: range_offset_zero)
  moreover have "int r < ?off (int (nat T))" using assms by (simp add: range_offset_last)
  ultimately obtain t where "t < nat T" "?off (int t) \<le> int r" "int r < ?off (int t + 1)"
    using range_offset_cover by blast
  then show ?thesis
    using assms(1) by (intro exI [of _ t]) (simp add: partition_rows_start partition_rows_end)
qed

lemma partition_rows_unique:
  assumes "0 < T" and "T \<le> int n"
    and "t < nat T" and "row_start (partition_rows n T ! t) \<le> r" and "r < row_end (partition_rows n T ! t)"
    and "u < nat T" and "row_start (partition_rows n T ! u) \<le> r" and "r < row_end (partition_rows n T ! u)"
  shows "t = u"
proof (rule ccontr)
  assume "t \<noteq> u"
  then consider "t < u" | "u < t" by linarith
  then show False
  proof cases
    case 1
    from partition_rows_disjoint [OF assms(1) 1 assms(6), of n] assms show False by simp
  next
    case 2
    from partition_rows_disjoint [OF assms(1) 2 assms(3), of n] assms show False by simp
  qed
qed

lemma partition_rows_covered:
  assumes "0 < T"
  shows "covered (partition_rows n T) = {..<n}"
proof (rule set_eqI)
  fix r
  show "r \<in> covered (partition_rows n T) \<longleftrightarrow> r \<in> {..<n}"
  proof
    assume "r \<in> covered (partition_rows n T)"
    then obtain a where a: "a \<in> set (partition_rows n T)" "row_start a \<le> int r" "int r < row_end a"
      by (auto simp: covered_def)
    then obtain t where "t < nat T" "a = partition_rows n T ! t"
      by (auto simp: in_set_conv_nth partition_rows_length)
    then have "in_bounds n a" using assms by (simp add: partition_rows_in_bounds)
    with a show "r \<in> {..<n}" by (simp add: in_bounds_def)
  next
    assume "r \<in> {..<n}"
    then obtain t where "t < nat T" "row_start (partition_rows n T ! t) \<le> int r"
      "int r < row_end (partition_rows n T ! t)"
      using partition_rows_cover [OF assms, of r n] by auto
    then show "r \<in> covered (partition_rows n T)"
      unfolding covered_def by (auto simp: partition_rows_length intro!: bexI [of _ "partition_rows n T ! t"])
  qed
qed


section \<open>Frame and arithmetic: auxiliary facts\<close>

lemma with_rows_cell:
  "r < n \<Longrightarrow> j < n \<Longrightarrow> r \<in> R \<Longrightarrow>
   matrix_c (with_rows n R s) ! r ! j = (\<Sum>k<n. (matrix_a s ! r) ! k * (matrix_b_t s ! j) ! k)"
  by (simp add: with_rows_def product_row_def)

lemma with_rows_operands [simp]:
  "matrix_a (with_rows n R s) = matrix_a s"
  "matrix_b (with_rows n R s) = matrix_b s"
  "matrix_b_t (with_rows n R s) = matrix_b_t s"
  by (simp_all add: with_rows_def)

lemma transposed_sum:
  assumes "is_transposed n s" and "j < n"
  shows "(\<Sum>k<n. (matrix_a s ! i) ! k * (matrix_b_t s ! j) ! k) =
         (\<Sum>k<n. (matrix_a s ! i) ! k * (matrix_b s ! k) ! j)"
  using assms by (intro sum.cong) (auto simp: is_transposed_def)

lemma set_cell_other_row: "r \<noteq> i \<Longrightarrow> set_cell m i j v ! r = m ! r"
  by (simp add: set_cell_def)

lemma length_set_cell [simp]: "length (set_cell m i j v) = length m"
  by (simp add: set_cell_def)

lemma unchanged_outside_refl: "unchanged_outside R s s"
  by (simp add: unchanged_outside_def)

lemma unchanged_outside_trans:
  "unchanged_outside R s t \<Longrightarrow> unchanged_outside R' t u \<Longrightarrow> unchanged_outside (R \<union> R') s u"
  by (simp add: unchanged_outside_def)

lemma unchanged_outside_mono:
  "unchanged_outside R s t \<Longrightarrow> R \<subseteq> R' \<Longrightarrow> unchanged_outside R' s t"
  by (auto simp: unchanged_outside_def)

lemma compute_cell_frame: "unchanged_outside {i} s (compute_cell n i j s)"
  by (simp add: unchanged_outside_def compute_cell_def set_cell_other_row)

lemma compute_row_frame: "unchanged_outside {i} s (compute_row n i s)"
  unfolding compute_row_def
proof (rule for_loop_invariant [where P = "\<lambda>j t. unchanged_outside {i} s t"])
  show "unchanged_outside {i} s s" by (rule unchanged_outside_refl)
next
  fix k t assume "unchanged_outside {i} s t"
  from unchanged_outside_trans [OF this compute_cell_frame [of i t n k]]
  show "unchanged_outside {i} s (compute_cell n i k t)" by simp
qed simp

lemma range_loop_frame:
  "range_loop n i e s = Some s' \<Longrightarrow> unchanged_outside {r. i \<le> int r \<and> int r < e} s s'"
proof (induction n i e s rule: range_loop.induct)
  case (1 n i e s)
  show ?case
  proof (cases "i < e")
    case False
    with "1.prems" show ?thesis
      by (simp add: range_loop.simps [of n i] unchanged_outside_refl)
  next
    case True
    with "1.prems" have b: "0 \<le> i \<and> i < int n"
      and r: "range_loop n (i + 1) e (compute_row n (nat i) s) = Some s'"
      by (simp_all add: range_loop.simps [of n i] split: if_splits)
    from "1.IH" [OF True b r]
    have "unchanged_outside {r. i + 1 \<le> int r \<and> int r < e} (compute_row n (nat i) s) s'" .
    from unchanged_outside_trans [OF compute_row_frame this]
    have "unchanged_outside ({nat i} \<union> {r. i + 1 \<le> int r \<and> int r < e}) s s'" .
    moreover have "{nat i} \<union> {r. i + 1 \<le> int r \<and> int r < e} \<subseteq> {r. i \<le> int r \<and> int r < e}"
      using True b by auto
    ultimately show ?thesis by (rule unchanged_outside_mono)
  qed
qed

lemma range_loop_total:
  "0 \<le> i \<Longrightarrow> e \<le> int n \<Longrightarrow> \<exists>s'. range_loop n i e s = Some s'"
proof (induction n i e s rule: range_loop.induct)
  case (1 n i e s)
  show ?case
  proof (cases "i < e")
    case False
    then show ?thesis by (simp add: range_loop.simps [of n i])
  next
    case True
    with "1.prems" have b: "0 \<le> i \<and> i < int n" by simp
    from "1.IH" [OF True b] "1.prems" True b show ?thesis
      by (simp add: range_loop.simps [of n i])
  qed
qed


lemma word_of_int_sint_id: "word_of_int (sint w) = (w :: 'a :: len word)"
  by simp

lemma word_sum_products:
  "(\<Sum>k<n. f k * g k) = (word_of_int (\<Sum>k<n. sint (f k) * sint (g k)) :: 'a :: len word)"
  by (simp add: of_int_sum)


section \<open>init, the command line and main: auxiliary facts\<close>

lemma nested_loop_fill:
  assumes inv: "\<And>i j t. I t \<Longrightarrow> i < n \<Longrightarrow> j < n \<Longrightarrow> I (cell i j t)"
    and upd: "\<And>i j i' j' t. I t \<Longrightarrow> i < n \<Longrightarrow> j < n \<Longrightarrow> i' < n \<Longrightarrow> j' < n \<Longrightarrow>
        val (cell i j t) i' j' = (if i' = i \<and> j' = j then F i j else val t i' j')"
    and start: "I s"
  shows "I (for_loop 0 n (\<lambda>i. for_loop 0 n (\<lambda>j. cell i j)) s) \<and>
    (\<forall>i<n. \<forall>j<n. val (for_loop 0 n (\<lambda>i. for_loop 0 n (\<lambda>j. cell i j)) s) i j = F i j)"
proof -
  define P where "P i t \<longleftrightarrow> I t \<and> (\<forall>i'<i. \<forall>j<n. val t i' j = F i' j)" for i t
  define Q where "Q i j t \<longleftrightarrow> P i t \<and> (\<forall>j'<j. val t i j' = F i j')" for i j t
  have inner: "P (Suc i) (for_loop 0 n (\<lambda>j. cell i j) t)" if "i < n" and "P i t" for i t
  proof -
    have "Q i n (for_loop 0 n (\<lambda>j. cell i j) t)"
    proof (rule for_loop_invariant [where P = "Q i"])
      show "Q i 0 t" using that by (simp add: Q_def)
    next
      fix k u assume k: "k < n" and q: "Q i k u"
      then have "I u" by (simp add: Q_def P_def)
      have "I (cell i k u)" using \<open>I u\<close> that(1) k by (rule inv)
      moreover have "val (cell i k u) i' j = F i' j" if "i' < i" "j < n" for i' j
      proof -
        have "i' < n" using that(1) \<open>i < n\<close> by simp
        from upd [OF \<open>I u\<close> \<open>i < n\<close> k this that(2)] that q show ?thesis
          by (simp add: Q_def P_def)
      qed
      moreover have "val (cell i k u) i j' = F i j'" if "j' < Suc k" for j'
      proof -
        have "j' < n" using that k by simp
        from upd [OF \<open>I u\<close> \<open>i < n\<close> k \<open>i < n\<close> this] that q show ?thesis
          by (auto simp: Q_def less_Suc_eq)
      qed
      ultimately show "Q i (Suc k) (cell i k u)" by (simp add: Q_def P_def)
    qed simp
    then show ?thesis by (auto simp: Q_def P_def less_Suc_eq)
  qed
  have "P n (for_loop 0 n (\<lambda>i. for_loop 0 n (\<lambda>j. cell i j)) s)"
  proof (rule for_loop_invariant [where P = P])
    show "P 0 s" using start by (simp add: P_def)
  next
    fix k t assume "k < n" and "P k t"
    then show "P (Suc k) (for_loop 0 n (\<lambda>j. cell k j) t)" by (rule inner)
  qed simp
  then show ?thesis by (simp add: P_def)
qed

lemma wf_state_init_cell: "wf_state n s \<Longrightarrow> wf_state n (init_cell i j s)"
  by (simp add: wf_state_def init_cell_def wf_matrix_set_cell)

lemma wf_state_transpose_cell: "wf_state n s \<Longrightarrow> wf_state n (transpose_cell i j s)"
  by (simp add: wf_state_def transpose_cell_def wf_matrix_set_cell)

lemma init_cells_loop:
  assumes "wf_state n s"
  shows "wf_state n (for_loop 0 n (\<lambda>i. for_loop 0 n (\<lambda>j. init_cell i j)) s) \<and>
    init_values n (for_loop 0 n (\<lambda>i. for_loop 0 n (\<lambda>j. init_cell i j)) s)"
proof -
  let ?val = "\<lambda>t i j. ((matrix_a t ! i) ! j, (matrix_b t ! i) ! j, (matrix_c t ! i) ! j)"
  let ?F = "\<lambda>i j. (int_to_long (of_nat i + of_nat j), int_to_long (of_nat i - of_nat j), 0 :: long)"
  have "wf_state n (for_loop 0 n (\<lambda>i. for_loop 0 n (\<lambda>j. init_cell i j)) s) \<and>
    (\<forall>i<n. \<forall>j<n. ?val (for_loop 0 n (\<lambda>i. for_loop 0 n (\<lambda>j. init_cell i j)) s) i j = ?F i j)"
  proof (rule nested_loop_fill [where I = "wf_state n" and val = ?val and F = ?F])
    show "wf_state n s" by (rule assms)
  next
    fix i j t assume "wf_state n t"
    then show "wf_state n (init_cell i j t)" by (rule wf_state_init_cell)
  next
    fix i j i' j' t
    assume "wf_state n t" "i < n" "j < n" "i' < n" "j' < n"
    then show "?val (init_cell i j t) i' j' = (if i' = i \<and> j' = j then ?F i j else ?val t i' j')"
      by (simp add: init_cell_def wf_state_def set_cell_nth [where n = n])
  qed
  then show ?thesis by (simp add: init_values_def)
qed

lemma transpose_loop:
  assumes "wf_state n s"
  shows "wf_state n (for_loop 0 n (\<lambda>i. for_loop 0 n (\<lambda>j. transpose_cell i j)) s) \<and>
    matrix_a (for_loop 0 n (\<lambda>i. for_loop 0 n (\<lambda>j. transpose_cell i j)) s) = matrix_a s \<and>
    matrix_b (for_loop 0 n (\<lambda>i. for_loop 0 n (\<lambda>j. transpose_cell i j)) s) = matrix_b s \<and>
    matrix_c (for_loop 0 n (\<lambda>i. for_loop 0 n (\<lambda>j. transpose_cell i j)) s) = matrix_c s \<and>
    (\<forall>i<n. \<forall>j<n.
       (matrix_b_t (for_loop 0 n (\<lambda>i. for_loop 0 n (\<lambda>j. transpose_cell i j)) s) ! j) ! i =
       (matrix_b s ! i) ! j)"
proof -
  let ?I = "\<lambda>t. wf_state n t \<and> matrix_a t = matrix_a s \<and> matrix_b t = matrix_b s \<and>
    matrix_c t = matrix_c s"
  let ?val = "\<lambda>t i j. (matrix_b_t t ! j) ! i"
  let ?F = "\<lambda>i j. (matrix_b s ! i) ! j"
  have "?I (for_loop 0 n (\<lambda>i. for_loop 0 n (\<lambda>j. transpose_cell i j)) s) \<and>
    (\<forall>i<n. \<forall>j<n. ?val (for_loop 0 n (\<lambda>i. for_loop 0 n (\<lambda>j. transpose_cell i j)) s) i j = ?F i j)"
  proof (rule nested_loop_fill [where I = ?I and val = ?val and F = ?F])
    show "?I s" using assms by simp
  next
    fix i j t assume "?I t"
    then show "?I (transpose_cell i j t)"
      by (simp add: wf_state_transpose_cell) (simp add: transpose_cell_def)
  next
    fix i j i' j' t
    assume "?I t" "i < n" "j < n" "i' < n" "j' < n"
    then show "?val (transpose_cell i j t) i' j' = (if i' = i \<and> j' = j then ?F i j else ?val t i' j')"
      by (auto simp: transpose_cell_def wf_state_def set_cell_nth [where n = n])
  qed
  then show ?thesis by simp
qed


lemma init_facts:
  assumes "wf_state n s"
  shows "wf_state n (init n s)"
    and "init_values n (init n s)"
    and "\<forall>i<n. \<forall>j<n. (matrix_b_t (init n s) ! j) ! i = (matrix_b (init n s) ! i) ! j"
proof -
  let ?s1 = "for_loop 0 n (\<lambda>i. for_loop 0 n (\<lambda>j. init_cell i j)) s"
  have 1: "wf_state n ?s1" and v: "init_values n ?s1"
    using init_cells_loop [OF assms] by simp_all
  have i: "init n s = for_loop 0 n (\<lambda>i. for_loop 0 n (\<lambda>j. transpose_cell i j)) ?s1"
    by (simp add: init_def)
  from transpose_loop [OF 1] v
  show "wf_state n (init n s)" and "init_values n (init n s)"
    and "\<forall>i<n. \<forall>j<n. (matrix_b_t (init n s) ! j) ! i = (matrix_b (init n s) ! i) ! j"
    unfolding i by (simp_all add: init_values_def)
qed

lemma wf_zero_state: "wf_state n (zero_state n)"
  by (simp add: wf_state_def zero_state_def zero_matrix_def wf_matrix_def list_all_length)

lemma isdigit_plain:
  assumes "isdigit c"
  shows "\<not> isspace c" and "c \<noteq> CHR ''-''" and "c \<noteq> CHR ''+''"
proof -
  show "\<not> isspace c" using assms by (auto simp: isdigit_def isspace_def)
  show "c \<noteq> CHR ''-''" using assms by (auto simp: isdigit_def)
  show "c \<noteq> CHR ''+''" using assms by (auto simp: isdigit_def)
qed

lemma digit_val_nonneg: "isdigit c \<Longrightarrow> 0 \<le> digit_val c"
  by (simp add: isdigit_def digit_val_def)

lemma decimal_value_Nil: "decimal_value [] = 0"
  by (simp add: decimal_value_def)

lemma decimal_value_Cons:
  "decimal_value (c # cs) = digit_val c * 10 ^ length cs + decimal_value cs"
proof -
  have "decimal_value (c # cs) =
      (\<Sum>i<Suc (length cs). digit_val ((c # cs) ! i) * 10 ^ (length cs - i))"
    by (simp add: decimal_value_def del: sum.lessThan_Suc)
  also have "\<dots> = digit_val c * 10 ^ length cs +
      (\<Sum>i<length cs. digit_val (cs ! i) * 10 ^ (length cs - Suc i))"
    by (subst sum.lessThan_Suc_shift) simp
  finally show ?thesis by (simp add: decimal_value_def)
qed

lemma decimal_value_nonneg: "list_all isdigit ds \<Longrightarrow> 0 \<le> decimal_value ds"
  by (induction ds) (simp_all add: decimal_value_Nil decimal_value_Cons digit_val_nonneg)

lemma read_digits_stop: "rest = [] \<or> \<not> isdigit (hd rest) \<Longrightarrow> read_digits acc rest = acc"
  by (cases rest) auto

lemma read_digits_prefix:
  "list_all isdigit ds \<Longrightarrow> rest = [] \<or> \<not> isdigit (hd rest) \<Longrightarrow>
   read_digits acc (ds @ rest) = acc * 10 ^ length ds + decimal_value ds"
proof (induction ds arbitrary: acc)
  case Nil
  then show ?case by (simp add: read_digits_stop decimal_value_Nil)
next
  case (Cons c cs)
  then show ?case by (simp add: decimal_value_Cons algebra_simps)
qed

lemma atoi_prefix:
  assumes "ds \<noteq> []" and "list_all isdigit ds" and "rest = [] \<or> \<not> isdigit (hd rest)"
    and "decimal_value ds \<le> INT_MAX"
  shows "atoi (ds @ rest) = Some (decimal_value ds)"
proof -
  obtain c cs where ds: "ds = c # cs" using assms(1) by (cases ds) auto
  then have c: "isdigit c" using assms(2) by simp
  have "dropWhile isspace (ds @ rest) = ds @ rest"
    using c by (simp add: ds isdigit_plain)
  moreover have "read_sign (ds @ rest) = (False, ds @ rest)"
    using c by (simp add: ds isdigit_plain)
  moreover have "read_digits 0 (ds @ rest) = decimal_value ds"
    using assms(2,3) by (simp add: read_digits_prefix)
  moreover have "INT_MIN \<le> decimal_value ds"
    using decimal_value_nonneg [OF assms(2)] by (simp add: INT_MIN_def)
  ultimately show ?thesis using assms(4) by (simp add: atoi_def)
qed

lemma atoi_unparsable: "unparsable str \<Longrightarrow> atoi str = Some 0"
proof -
  assume u: "unparsable str"
  obtain neg ds where r: "read_sign (dropWhile isspace str) = (neg, ds)" by force
  with u have "ds = [] \<or> \<not> isdigit (hd ds)"
    by (auto simp: unparsable_def split: list.splits)
  then have "read_digits 0 ds = 0" by (rule read_digits_stop)
  with r show ?thesis by (simp add: atoi_def INT_MIN_def INT_MAX_def)
qed

lemma parse_nthreads_positive: "parse_nthreads argv = Some T \<Longrightarrow> 1 \<le> T"
  by (auto simp: parse_nthreads_def split: if_splits option.splits)

lemma clamp_nthreads_bounds: "1 \<le> T \<Longrightarrow> 1 \<le> n \<Longrightarrow> 1 \<le> clamp_nthreads n T \<and> clamp_nthreads n T \<le> int n"
  by (simp add: clamp_nthreads_def)


lemma main_finishes:
  assumes "parse_nthreads argv = Some T" and "1 \<le> n"
  shows "\<exists>s'. main all_ok n argv = Some (Finished s')"
proof -
  let ?U = "clamp_nthreads n T"
  have "1 \<le> T" using assms(1) by (rule parse_nthreads_positive)
  then have U: "0 < ?U" using assms(2) by (simp add: clamp_nthreads_def)
  have "wf_state n (init n (zero_state n))"
    using wf_zero_state by (rule init_facts)
  then have "run_workers n (partition_rows n ?U) (init n (zero_state n)) =
      Some (with_rows n (covered (partition_rows n ?U)) (init n (zero_state n)))"
    using U by (intro run_workers_eq partition_rows_all_in_bounds)
  then show ?thesis
    using assms(1) by (simp add: main_def all_ok_def list_all_iff)
qed


text \<open>The ranges of the program as it is compiled, with the default of four workers.\<close>

lemma partition_rows_DIM_default:
  "partition_rows DIM (clamp_nthreads DIM 4) =
     [\<lparr>row_start = 0, row_end = 250\<rparr>, \<lparr>row_start = 250, row_end = 500\<rparr>,
      \<lparr>row_start = 500, row_end = 750\<rparr>, \<lparr>row_start = 750, row_end = 1000\<rparr>]"
  by (simp add: DIM_def clamp_nthreads_def partition_rows_def make_ranges.simps)

section \<open>Every schedule of the workers gives the result of the sequential run\<close>

text \<open>
  \<open>multiply_range_cells\<close>: a worker computes its cells in the order of \<open>cells\<close>.
  \<open>schedule_independent\<close>: whatever the schedule, once every worker has finished the
  state is the one \<open>run_workers\<close> returns.
\<close>

lemma matrix_eqI:
  assumes "wf_matrix n m" and "wf_matrix n m'"
    and "\<And>i j. i < n \<Longrightarrow> j < n \<Longrightarrow> (m ! i) ! j = (m' ! i) ! j"
  shows "m = m'"
proof (rule nth_equalityI)
  show "length m = length m'" using assms(1,2) by (simp add: wf_matrix_length)
next
  fix i assume "i < length m"
  then have i: "i < n" using assms(1) by (simp add: wf_matrix_length)
  show "m ! i = m' ! i"
  proof (rule nth_equalityI)
    show "length (m ! i) = length (m' ! i)" using assms(1,2) i by (simp add: wf_matrix_nth)
  next
    fix j assume "j < length (m ! i)"
    then have "j < n" using assms(1) i by (simp add: wf_matrix_nth)
    with i show "(m ! i) ! j = (m' ! i) ! j" by (rule assms(3))
  qed
qed

lemma cells_done_unique:
  assumes "cells_done n D s t" and "cells_done n D s t'"
  shows "t = t'"
proof -
  have "matrix_c t = matrix_c t'"
    using assms by (intro matrix_eqI [where n = n]) (simp_all add: cells_done_def wf_state_def)
  with assms show ?thesis by (simp add: cells_done_def)
qed

lemma cells_done_start: "wf_state n s \<Longrightarrow> cells_done n {} s s"
  by (simp add: cells_done_def)

lemma cells_done_step:
  assumes "cells_done n D s t" and "i < n" and "j < n"
  shows "cells_done n (insert (i, j) D) s (compute_cell n i j t)"
proof -
  have wf: "wf_matrix n (matrix_c t)" using assms(1) by (simp add: cells_done_def wf_state_def)
  have ip: "inner_product n t i j = (\<Sum>k<n. (matrix_a s ! i) ! k * (matrix_b_t s ! j) ! k)"
    using assms(1) by (simp add: inner_product_sum cells_done_def)
  have "wf_state n t" using assms(1) by (simp add: cells_done_def)
  then have "wf_state n (compute_cell n i j t)"
    by (simp add: wf_state_def compute_cell_def wf_matrix_set_cell)
  moreover have "(matrix_c (compute_cell n i j t) ! i') ! j' =
        (if (i', j') \<in> insert (i, j) D then (\<Sum>k<n. (matrix_a s ! i') ! k * (matrix_b_t s ! j') ! k)
         else (matrix_c s ! i') ! j')" if "i' < n" "j' < n" for i' j'
    using that assms wf by (simp add: compute_cell_def set_cell_nth [where n = n] ip) (simp add: cells_done_def)
  ultimately show ?thesis
    using assms(1) by (simp add: cells_done_def compute_cell_def)
qed

lemma cells_done_with_rows:
  assumes "wf_state n s"
  shows "cells_done n {(i, j). i \<in> R \<and> i < n \<and> j < n} s (with_rows n R s)"
  using wf_with_rows [OF assms, of R] assms
  by (simp add: cells_done_def with_rows_def product_row_def)

lemma cells_in_bounds_update:
  assumes "cells_in_bounds n qs" and "w < length qs" and "qs ! w = c # q"
  shows "cells_in_bounds n (qs[w := q])" and "fst c < n" and "snd c < n"
proof -
  have m: "qs ! w \<in> set qs" using assms(2) by simp
  then have "\<forall>c' \<in> set (c # q). fst c' < n \<and> snd c' < n"
    using assms(1,3) by (auto simp: cells_in_bounds_def)
  then show "fst c < n" and "snd c < n" and "cells_in_bounds n (qs[w := q])"
    using assms(1) by (auto simp: cells_in_bounds_def dest!: set_update_subset_insert [THEN subsetD])
qed

lemma queue_update_union:
  assumes "w < length qs" and "qs ! w = c # q"
  shows "insert c (\<Union> (set ` set (qs[w := q]))) = \<Union> (set ` set qs)"
proof -
  have "qs = take w qs @ (c # q) # drop (Suc w) qs"
    using assms by (metis id_take_nth_drop)
  moreover have "qs[w := q] = take w qs @ q # drop (Suc w) qs"
    using assms(1) by (simp add: upd_conv_take_nth_drop)
  ultimately have "set ` set qs = insert (set (c # q)) (set ` set (take w qs) \<union> set ` set (drop (Suc w) qs))"
    and "set ` set (qs[w := q]) = insert (set q) (set ` set (take w qs) \<union> set ` set (drop (Suc w) qs))"
    by (metis (no_types, lifting) Un_insert_right image_Un image_insert list.simps(15) set_append)+
  then show ?thesis by auto
qed

lemma run_schedule_cells_done:
  "run_schedule n ws qs t = (qs', t') \<Longrightarrow> cells_done n D s t \<Longrightarrow> cells_in_bounds n qs \<Longrightarrow>
   \<exists>D'. cells_done n D' s t' \<and> D' \<union> \<Union> (set ` set qs') = D \<union> \<Union> (set ` set qs)"
proof (induction ws arbitrary: qs t D)
  case Nil
  then show ?case by auto
next
  case (Cons w ws)
  show ?case
  proof (cases "w < length qs")
    case False
    with Cons.prems have "run_schedule n ws qs t = (qs', t')" by simp
    from Cons.IH [OF this Cons.prems(2,3)] show ?thesis .
  next
    case True
    show ?thesis
    proof (cases "qs ! w")
      case Nil
      with True Cons.prems have "run_schedule n ws qs t = (qs', t')" by simp
      from Cons.IH [OF this Cons.prems(2,3)] show ?thesis .
    next
      case (Cons c q)
      with True Cons.prems(1)
      have r: "run_schedule n ws (qs[w := q]) (compute_cell n (fst c) (snd c) t) = (qs', t')"
        by simp
      note b = cells_in_bounds_update [OF Cons.prems(3) True Cons]
      have "cells_done n (insert (fst c, snd c) D) s (compute_cell n (fst c) (snd c) t)"
        using Cons.prems(2) b(2,3) by (rule cells_done_step)
      from Cons.IH [OF r this b(1)] obtain D' where
        "cells_done n D' s t'"
        "D' \<union> \<Union> (set ` set qs') = insert (fst c, snd c) D \<union> \<Union> (set ` set (qs[w := q]))"
        by blast
      moreover have "insert c (\<Union> (set ` set (qs[w := q]))) = \<Union> (set ` set qs)"
        using True Cons by (rule queue_update_union)
      ultimately show ?thesis by (intro exI [of _ D']) auto
    qed
  qed
qed

lemma set_cells:
  assumes "in_bounds n a"
  shows "set (cells n a) = {(i, j). row_start a \<le> int i \<and> int i < row_end a \<and> j < n}"
proof -
  have "set (cells n a) = {nat (row_start a)..<nat (row_end a)} \<times> {0..<n}"
    unfolding cells_def by (simp add: image_Un Sigma_def image_image) blast
  also have "\<dots> = {(i, j). row_start a \<le> int i \<and> int i < row_end a \<and> j < n}"
  proof -
    have "0 \<le> row_start a" using assms by (simp add: in_bounds_def)
    then have "nat (row_start a) \<le> i \<and> i < nat (row_end a) \<longleftrightarrow>
        row_start a \<le> int i \<and> int i < row_end a" for i
      by linarith
    then have "{nat (row_start a)..<nat (row_end a)} = {i. row_start a \<le> int i \<and> int i < row_end a}"
      by (simp only: set_eq_iff atLeastLessThan_iff mem_Collect_eq) simp
    then show ?thesis by (simp only:) auto
  qed
  finally show ?thesis .
qed

lemma schedule_independent:
  assumes "wf_state n s" and "list_all (in_bounds n) as"
    and "run_schedule n ws (map (cells n) as) s = (qs', s')"
    and "list_all (\<lambda>q. q = []) qs'"
  shows "run_workers n as s = Some s'"
proof -
  have b: "cells_in_bounds n (map (cells n) as)"
    using assms(2) by (auto simp: cells_in_bounds_def list_all_iff set_cells in_bounds_def)
  from run_schedule_cells_done [OF assms(3) cells_done_start [OF assms(1)] b]
  obtain D' where D': "cells_done n D' s s'"
    "D' \<union> \<Union> (set ` set qs') = {} \<union> \<Union> (set ` set (map (cells n) as))" by blast
  have "\<Union> (set ` set qs') = {}" using assms(4) by (auto simp: list_all_iff)
  moreover have "\<Union> (set ` set (map (cells n) as)) = {(i, j). i \<in> covered as \<and> i < n \<and> j < n}"
    using assms(2) by (auto simp: list_all_iff set_cells covered_def in_bounds_def)
  ultimately have "D' = {(i, j). i \<in> covered as \<and> i < n \<and> j < n}"
    using D'(2) by (simp only: Un_empty_right Un_empty_left)
  then have "cells_done n {(i, j). i \<in> covered as \<and> i < n \<and> j < n} s s'"
    using D'(1) by (simp only:)
  then have "s' = with_rows n (covered as) s"
    using cells_done_with_rows [OF assms(1)] by (rule cells_done_unique)
  then show ?thesis using assms(1,2) by (simp add: run_workers_eq)
qed


lemma compute_row_cells:
  "compute_row n r s = fold (\<lambda>c. compute_cell n (fst c) (snd c)) (map (\<lambda>j. (r, j)) [0..<n]) s"
  by (simp add: compute_row_def for_loop_fold fold_map comp_def)

lemma range_loop_cells:
  "0 \<le> i \<Longrightarrow> e \<le> int n \<Longrightarrow>
   range_loop n i e s =
     Some (fold (\<lambda>c. compute_cell n (fst c) (snd c))
       (concat (map (\<lambda>r. map (\<lambda>j. (r, j)) [0..<n]) [nat i..<nat e])) s)"
proof (induction n i e s rule: range_loop.induct)
  case (1 n i e s)
  show ?case
  proof (cases "i < e")
    case False
    then show ?thesis by (simp add: range_loop.simps [of n i])
  next
    case True
    with "1.prems" have b: "0 \<le> i \<and> i < int n" by simp
    have "[nat i..<nat e] = nat i # [nat (i + 1)..<nat e]"
      using True b by (simp add: upt_conv_Cons nat_add_distrib)
    with "1.IH" [OF True b] "1.prems" True b show ?thesis
      by (simp add: range_loop.simps [of n i] compute_row_cells)
  qed
qed

lemma multiply_range_cells:
  "in_bounds n a \<Longrightarrow>
   multiply_range n a s = Some (fold (\<lambda>c. compute_cell n (fst c) (snd c)) (cells n a) s)"
  by (simp add: multiply_range_def in_bounds_def cells_def range_loop_cells)

lemma run_schedule_example:
  "run_schedule 2 [1, 0, 0, 1] (map (cells 2) (partition_rows 2 2)) (init 2 (zero_state 2)) =
     ([[], []], multiply 2 (init 2 (zero_state 2)))"
  by code_simp

section \<open>The properties of the specification\<close>

text \<open>
  C2. For a dimension \<open>n\<close> and a worker count \<open>T\<close> with \<open>1 \<le> T \<le> n\<close>, the loop of
  \<^verbatim>\<open>main\<close> produces \<open>T\<close> ranges; the first starts at row 0, each next one starts where
  the one before ends, the last ends at \<open>n\<close>; range \<open>t\<close> has \<open>n div T + 1\<close> rows when
  \<open>t < n mod T\<close> and \<open>n div T\<close> rows otherwise, so two sizes differ by at most 1; the
  ranges are pairwise disjoint and in increasing order; every row below \<open>n\<close> lies in exactly
  one range, and the rows covered are exactly those below \<open>n\<close>; when \<open>T = n\<close> every range
  has exactly one row.
\<close>

theorem partition_rows_correct:
  assumes "1 \<le> T" and "T \<le> int n"
  shows "length (partition_rows n T) = nat T
    \<and> row_start (partition_rows n T ! 0) = 0
    \<and> (\<forall>t. Suc t < nat T \<longrightarrow>
          row_start (partition_rows n T ! Suc t) = row_end (partition_rows n T ! t))
    \<and> row_end (last (partition_rows n T)) = int n
    \<and> (\<forall>t<nat T. range_size (partition_rows n T ! t) =
          int n div T + (if int t < int n mod T then 1 else 0))
    \<and> (\<forall>t<nat T. \<forall>u<nat T.
          \<bar>range_size (partition_rows n T ! t) - range_size (partition_rows n T ! u)\<bar> \<le> 1)
    \<and> (\<forall>t u. t < u \<and> u < nat T \<longrightarrow>
          row_end (partition_rows n T ! t) \<le> row_start (partition_rows n T ! u))
    \<and> (\<forall>r<n. \<exists>!t. t < nat T \<and> row_start (partition_rows n T ! t) \<le> int r
          \<and> int r < row_end (partition_rows n T ! t))
    \<and> covered (partition_rows n T) = {..<n}
    \<and> (T = int n \<longrightarrow> (\<forall>t<nat T. range_size (partition_rows n T ! t) = 1))"
proof -
  let ?rs = "partition_rows n T"
  have T: "0 < T" using assms(1) by simp
  have c1: "length ?rs = nat T" by (rule partition_rows_length)
  have c2: "row_start (?rs ! 0) = 0"
    using T by (simp add: partition_rows_start range_offset_zero)
  have c3: "\<forall>t. Suc t < nat T \<longrightarrow> row_start (?rs ! Suc t) = row_end (?rs ! t)"
    using T by (simp add: partition_rows_start partition_rows_end add.commute)
  have "last ?rs = ?rs ! (nat T - 1)"
    using T c1 by (subst last_conv_nth) auto
  then have c4: "row_end (last ?rs) = int n"
    using T by (simp add: partition_rows_end range_offset_last)
  have c5: "\<forall>t<nat T. range_size (?rs ! t) = int n div T + (if int t < int n mod T then 1 else 0)"
    using T by (simp add: partition_rows_size)
  have c6: "\<forall>t<nat T. \<forall>u<nat T. \<bar>range_size (?rs ! t) - range_size (?rs ! u)\<bar> \<le> 1"
    using T by (simp add: partition_rows_size)
  have c7: "\<forall>t u. t < u \<and> u < nat T \<longrightarrow> row_end (?rs ! t) \<le> row_start (?rs ! u)"
    using T by (simp add: partition_rows_disjoint)
  have c8: "\<forall>r<n. \<exists>!t. t < nat T \<and> row_start (?rs ! t) \<le> int r \<and> int r < row_end (?rs ! t)"
  proof (intro allI impI)
    fix r assume "r < n"
    from partition_rows_cover [OF T this] obtain t where
      t: "t < nat T \<and> row_start (?rs ! t) \<le> int r \<and> int r < row_end (?rs ! t)" by blast
    show "\<exists>!t. t < nat T \<and> row_start (?rs ! t) \<le> int r \<and> int r < row_end (?rs ! t)"
    proof (rule ex1I [of _ t])
      show "t < nat T \<and> row_start (?rs ! t) \<le> int r \<and> int r < row_end (?rs ! t)" by (rule t)
    next
      fix u assume "u < nat T \<and> row_start (?rs ! u) \<le> int r \<and> int r < row_end (?rs ! u)"
      with t show "u = t"
        using partition_rows_unique [OF T assms(2), of u "int r" t] by simp
    qed
  qed
  have c9: "covered ?rs = {..<n}" using T by (rule partition_rows_covered)
  have c10: "T = int n \<longrightarrow> (\<forall>t<nat T. range_size (?rs ! t) = 1)"
    using T by (auto simp: partition_rows_size)
  from c1 c2 c3 c4 c5 c6 c7 c8 c9 c10 show ?thesis by blast
qed

theorem partition_rows_correct_witness:
  "(1 :: int) \<le> 4 \<and> (4 :: int) \<le> int 10
    \<and> partition_rows 10 4 =
        [\<lparr>row_start = 0, row_end = 3\<rparr>, \<lparr>row_start = 3, row_end = 6\<rparr>,
         \<lparr>row_start = 6, row_end = 8\<rparr>, \<lparr>row_start = 8, row_end = 10\<rparr>]
    \<and> length (partition_rows 10 4) = nat 4
    \<and> row_end (last (partition_rows 10 4)) = int 10
    \<and> covered (partition_rows 10 4) = {..<10}"
proof -
  have h1: "(1 :: int) \<le> 4" and h2: "(4 :: int) \<le> int 10" by simp_all
  have "partition_rows 10 4 =
        [\<lparr>row_start = 0, row_end = 3\<rparr>, \<lparr>row_start = 3, row_end = 6\<rparr>,
         \<lparr>row_start = 6, row_end = 8\<rparr>, \<lparr>row_start = 8, row_end = 10\<rparr>]"
    by (simp add: partition_rows_def make_ranges.simps)
  with partition_rows_correct [OF h1 h2] h1 h2 show ?thesis by blast
qed

text \<open>
  C9. The serial routine \<^verbatim>\<open>multiply\<close> and the workers \<^verbatim>\<open>multiply_range\<close>, run over any list
  of ranges inside \<open>[0, n)\<close> that together cover the rows \<open>[0, n)\<close>, end in the same
  state: the same result matrix and the same operands. The ranges of a partition are
  such a list; neither their order nor their disjointness is needed.
\<close>

theorem multiply_range_refines_multiply:
  assumes "wf_state n s" and "list_all (in_bounds n) as" and "covered as = {..<n}"
  shows "run_workers n as s = Some (multiply n s)"
  using assms by (simp add: run_workers_eq multiply_with_rows)


theorem multiply_range_refines_multiply_witness:
  "wf_state 2 (init 2 (zero_state 2)) \<and>
   list_all (in_bounds 2) [\<lparr>row_start = 1, row_end = 2\<rparr>, \<lparr>row_start = 0, row_end = 1\<rparr>] \<and>
   covered [\<lparr>row_start = 1, row_end = 2\<rparr>, \<lparr>row_start = 0, row_end = 1\<rparr>] = {..<2} \<and>
   run_workers 2 [\<lparr>row_start = 1, row_end = 2\<rparr>, \<lparr>row_start = 0, row_end = 1\<rparr>]
     (init 2 (zero_state 2)) = Some (multiply 2 (init 2 (zero_state 2))) \<and>
   matrix_c (multiply 2 (init 2 (zero_state 2))) = [[1, 0], [2, - 1]]"
proof -
  have h1: "wf_state 2 (init 2 (zero_state 2))" by code_simp
  have h2: "list_all (in_bounds 2) [\<lparr>row_start = 1, row_end = 2\<rparr>, \<lparr>row_start = 0, row_end = 1\<rparr>]"
    by code_simp
  have h3: "covered [\<lparr>row_start = 1, row_end = 2\<rparr>, \<lparr>row_start = 0, row_end = 1\<rparr>] = {..<2}"
    by (auto simp: covered_def)
  have v: "matrix_c (multiply 2 (init 2 (zero_state 2))) = [[1, 0], [2, - 1]]" by code_simp
  from multiply_range_refines_multiply [OF h1 h2 h3] h1 h2 h3 v show ?thesis by blast
qed

text \<open>
  C1. For a dimension \<open>n\<close>, operands with \<^verbatim>\<open>matrix_b_t\<close> the transpose of \<^verbatim>\<open>matrix_b\<close>,
  and a worker count \<open>T\<close> with \<open>1 \<le> T \<le> n\<close>, the workers run over the ranges made for
  \<open>T\<close> return, and every cell \<open>(i, j)\<close> of \<^verbatim>\<open>matrix_c\<close> holds the sum over \<open>k < n\<close> of
  \<open>A[i][k] * B[k][j]\<close> (in the arithmetic of \<^verbatim>\<open>long\<close>); any other such worker count
  \<open>T'\<close> gives the same final state.
\<close>

theorem parallel_multiply_correct:
  assumes "wf_state n s" and "is_transposed n s"
    and "1 \<le> T" and "T \<le> int n" and "1 \<le> T'" and "T' \<le> int n"
  shows "\<exists>s'. parallel_multiply n T s = Some s' \<and>
           (\<forall>i<n. \<forall>j<n. (matrix_c s' ! i) ! j =
              (\<Sum>k<n. (matrix_a s ! i) ! k * (matrix_b s ! k) ! j)) \<and>
           parallel_multiply n T' s = Some s'"
proof -
  have eq: "parallel_multiply n U s = Some (with_rows n {..<n} s)" if "1 \<le> U" for U
    using that assms(1)
    by (simp add: parallel_multiply_def run_workers_eq partition_rows_all_in_bounds
        partition_rows_covered)
  have "(matrix_c (with_rows n {..<n} s) ! i) ! j =
      (\<Sum>k<n. (matrix_a s ! i) ! k * (matrix_b s ! k) ! j)" if "i < n" "j < n" for i j
    using that assms(2) by (simp add: with_rows_cell transposed_sum)
  with eq [OF assms(3)] eq [OF assms(5)] show ?thesis by simp
qed

theorem parallel_multiply_correct_witness:
  "wf_state 2 (init 2 (zero_state 2)) \<and> is_transposed 2 (init 2 (zero_state 2)) \<and>
   (1 :: int) \<le> 1 \<and> (1 :: int) \<le> int 2 \<and> (1 :: int) \<le> 2 \<and> (2 :: int) \<le> int 2 \<and>
   (\<exists>s'. parallel_multiply 2 1 (init 2 (zero_state 2)) = Some s' \<and>
      parallel_multiply 2 2 (init 2 (zero_state 2)) = Some s' \<and>
      matrix_c s' = [[1, 0], [2, - 1]])"
proof -
  have h1: "wf_state 2 (init 2 (zero_state 2))" by code_simp
  have h2: "is_transposed 2 (init 2 (zero_state 2))" by code_simp
  have h3: "(1 :: int) \<le> 1" and h4: "(1 :: int) \<le> int 2"
    and h5: "(1 :: int) \<le> 2" and h6: "(2 :: int) \<le> int 2" by simp_all
  have v: "parallel_multiply 2 1 (init 2 (zero_state 2)) =
      Some \<lparr>matrix_a = [[0, 1], [1, 2]], matrix_b = [[0, - 1], [1, 0]],
            matrix_b_t = [[0, 1], [- 1, 0]], matrix_c = [[1, 0], [2, - 1]]\<rparr>"
    by code_simp
  from parallel_multiply_correct [OF h1 h2 h3 h4 h5 h6] obtain s' where
    "parallel_multiply 2 1 (init 2 (zero_state 2)) = Some s'"
    "parallel_multiply 2 2 (init 2 (zero_state 2)) = Some s'" by blast
  with v h1 h2 h3 h4 h5 h6 show ?thesis by simp
qed

text \<open>
  C8. A worker whose range lies inside \<open>[0, n)\<close> returns; and whenever a worker run over
  the range \<open>[row_start, row_end)\<close> returns, \<^verbatim>\<open>matrix_a\<close>, \<^verbatim>\<open>matrix_b\<close> and
  \<^verbatim>\<open>matrix_b_t\<close> are as before, \<^verbatim>\<open>matrix_c\<close> has as many rows as before, and every row of
  \<^verbatim>\<open>matrix_c\<close> whose index is outside the range is as before.
\<close>

theorem multiply_range_frame:
  "(in_bounds n a \<longrightarrow> (\<exists>s'. multiply_range n a s = Some s')) \<and>
   (\<forall>s'. multiply_range n a s = Some s' \<longrightarrow>
      matrix_a s' = matrix_a s \<and> matrix_b s' = matrix_b s \<and> matrix_b_t s' = matrix_b_t s \<and>
      length (matrix_c s') = length (matrix_c s) \<and>
      (\<forall>r. \<not> (row_start a \<le> int r \<and> int r < row_end a) \<longrightarrow>
         matrix_c s' ! r = matrix_c s ! r))"
proof (intro conjI impI allI)
  assume "in_bounds n a"
  then show "\<exists>s'. multiply_range n a s = Some s'"
    by (simp add: multiply_range_def in_bounds_def range_loop_total)
next
  fix s' assume "multiply_range n a s = Some s'"
  then have "unchanged_outside {r. row_start a \<le> int r \<and> int r < row_end a} s s'"
    unfolding multiply_range_def by (rule range_loop_frame)
  then show "matrix_a s' = matrix_a s" "matrix_b s' = matrix_b s"
    "matrix_b_t s' = matrix_b_t s" "length (matrix_c s') = length (matrix_c s)"
    "\<And>r. \<not> (row_start a \<le> int r \<and> int r < row_end a) \<Longrightarrow> matrix_c s' ! r = matrix_c s ! r"
    by (simp_all add: unchanged_outside_def)
qed

theorem multiply_range_frame_witness:
  "in_bounds 2 \<lparr>row_start = 0, row_end = 1\<rparr> \<and>
   (\<exists>s'. multiply_range 2 \<lparr>row_start = 0, row_end = 1\<rparr> (init 2 (zero_state 2)) = Some s' \<and>
      matrix_a s' = [[0, 1], [1, 2]] \<and> matrix_b s' = [[0, - 1], [1, 0]] \<and>
      matrix_b_t s' = [[0, 1], [- 1, 0]] \<and> matrix_c s' ! 0 = [1, 0] \<and>
      matrix_c s' ! 1 = matrix_c (init 2 (zero_state 2)) ! 1)"
proof -
  have h: "in_bounds 2 \<lparr>row_start = 0, row_end = 1\<rparr>" by code_simp
  have v: "multiply_range 2 \<lparr>row_start = 0, row_end = 1\<rparr> (init 2 (zero_state 2)) =
      Some \<lparr>matrix_a = [[0, 1], [1, 2]], matrix_b = [[0, - 1], [1, 0]],
            matrix_b_t = [[0, 1], [- 1, 0]], matrix_c = [[1, 0], [0, 0]]\<rparr>"
    by code_simp
  let ?s' = "\<lparr>matrix_a = [[0, 1], [1, 2]], matrix_b = [[0, - 1], [1, 0]],
            matrix_b_t = [[0, 1], [- 1, 0]], matrix_c = [[1, 0], [0, 0]]\<rparr>"
  from multiply_range_frame [of 2 "\<lparr>row_start = 0, row_end = 1\<rparr>" "init 2 (zero_state 2)"] v
  have "\<forall>r. \<not> (row_start \<lparr>row_start = 0, row_end = 1\<rparr> \<le> int r \<and>
            int r < row_end \<lparr>row_start = 0, row_end = 1\<rparr>) \<longrightarrow>
          matrix_c ?s' ! r = matrix_c (init 2 (zero_state 2)) ! r"
    by blast
  then have "\<not> (row_start \<lparr>row_start = 0, row_end = 1\<rparr> \<le> int 1 \<and>
            int 1 < row_end \<lparr>row_start = 0, row_end = 1\<rparr>) \<longrightarrow>
          matrix_c ?s' ! 1 = matrix_c (init 2 (zero_state 2)) ! 1"
    by (rule spec)
  then have "matrix_c ?s' ! 1 = matrix_c (init 2 (zero_state 2)) ! 1"
    by simp
  with h v show ?thesis by simp
qed

text \<open>
  C7. The inner product of a cell is accumulated in the 64-bit arithmetic of \<^verbatim>\<open>long\<close>
  with no test: for every well-formed state and every range inside \<open>[0, n)\<close> the worker
  returns a state (never an error), and each cell it writes holds the mathematical sum of
  the products of the signed values, reduced modulo \<open>2 ^ 64\<close> (read as a signed value: wrapped
  into \<open>[- 2 ^ 63, 2 ^ 63)\<close>).
\<close>

theorem accumulation_wraps:
  assumes "wf_state n s" and "in_bounds n a"
  shows "\<exists>s'. multiply_range n a s = Some s' \<and>
    (\<forall>i j. row_start a \<le> int i \<and> int i < row_end a \<and> j < n \<longrightarrow>
       sint ((matrix_c s' ! i) ! j) =
         signed_take_bit 63 (\<Sum>k<n. sint ((matrix_a s ! i) ! k) * sint ((matrix_b_t s ! j) ! k)) \<and>
       uint ((matrix_c s' ! i) ! j) =
         (\<Sum>k<n. sint ((matrix_a s ! i) ! k) * sint ((matrix_b_t s ! j) ! k)) mod 2 ^ 64)"
proof -
  let ?R = "{r. row_start a \<le> int r \<and> int r < row_end a}"
  have run: "multiply_range n a s = Some (with_rows n ?R s)"
    using range_loop_with_rows [OF assms(1), of "row_start a" "row_end a" "{}"] assms
    by (simp add: multiply_range_def in_bounds_def with_rows_empty)
  have "sint ((matrix_c (with_rows n ?R s) ! i) ! j) =
         signed_take_bit 63 (\<Sum>k<n. sint ((matrix_a s ! i) ! k) * sint ((matrix_b_t s ! j) ! k)) \<and>
       uint ((matrix_c (with_rows n ?R s) ! i) ! j) =
         (\<Sum>k<n. sint ((matrix_a s ! i) ! k) * sint ((matrix_b_t s ! j) ! k)) mod 2 ^ 64"
    if "row_start a \<le> int i" "int i < row_end a" "j < n" for i j
  proof -
    have "i < n" using that assms(2) by (simp add: in_bounds_def)
    then have "(matrix_c (with_rows n ?R s) ! i) ! j =
        word_of_int (\<Sum>k<n. sint ((matrix_a s ! i) ! k) * sint ((matrix_b_t s ! j) ! k))"
      using that by (simp only: with_rows_cell mem_Collect_eq simp_thms word_sum_products)
    then show ?thesis
      by (simp only: sint_sbintrunc' uint_word_of_int) simp
  qed
  with run show ?thesis by blast
qed

theorem accumulation_wraps_witness:
  "wf_state 1 overflow_state \<and> in_bounds 1 \<lparr>row_start = 0, row_end = 1\<rparr> \<and>
   (\<exists>s'. multiply_range 1 \<lparr>row_start = 0, row_end = 1\<rparr> overflow_state = Some s' \<and>
      sint ((matrix_c s' ! 0) ! 0) = - 9223372036854775808)"
proof -
  have h1: "wf_state 1 overflow_state" by code_simp
  have h2: "in_bounds 1 \<lparr>row_start = 0, row_end = 1\<rparr>" by code_simp
  from accumulation_wraps [OF h1 h2] obtain s' where
    s': "multiply_range 1 \<lparr>row_start = 0, row_end = 1\<rparr> overflow_state = Some s'"
    and "\<forall>i j. row_start \<lparr>row_start = 0, row_end = 1\<rparr> \<le> int i \<and> int i < row_end \<lparr>row_start = 0, row_end = 1\<rparr> \<and> j < 1 \<longrightarrow>
       sint ((matrix_c s' ! i) ! j) =
         signed_take_bit 63 (\<Sum>k<1. sint ((matrix_a overflow_state ! i) ! k) * sint ((matrix_b_t overflow_state ! j) ! k)) \<and>
       uint ((matrix_c s' ! i) ! j) =
         (\<Sum>k<1. sint ((matrix_a overflow_state ! i) ! k) * sint ((matrix_b_t overflow_state ! j) ! k)) mod 2 ^ 64"
    by blast
  then have "sint ((matrix_c s' ! 0) ! 0) =
      signed_take_bit 63 (\<Sum>k<1. sint ((matrix_a overflow_state ! 0) ! k) * sint ((matrix_b_t overflow_state ! 0) ! k))"
    by simp
  also have "\<dots> = - 9223372036854775808"
    by (simp add: overflow_state_def signed_take_bit_eq_take_bit_minus take_bit_eq_mod bit_iff_odd)
  finally show ?thesis using h1 h2 s' by blast
qed

text \<open>
  C3. After \<^verbatim>\<open>init\<close>, run on arrays of dimension \<open>n\<close> with any contents, the arrays still
  have dimension \<open>n\<close>, \<open>matrix_b_t[j][i] = matrix_b[i][j]\<close> for all \<open>i, j < n\<close>, and
  \<open>matrix_c[i][j] = 0\<close> for all \<open>i, j < n\<close>.
\<close>

theorem init_correct:
  assumes "wf_state n s"
  shows "wf_state n (init n s) \<and>
    (\<forall>i<n. \<forall>j<n. (matrix_b_t (init n s) ! j) ! i = (matrix_b (init n s) ! i) ! j) \<and>
    (\<forall>i<n. \<forall>j<n. (matrix_c (init n s) ! i) ! j = 0)"
  using init_facts [OF assms] by (simp add: init_values_def)

theorem init_correct_witness:
  "wf_state 2 \<lparr>matrix_a = [[9, 9], [9, 9]], matrix_b = [[9, 9], [9, 9]],
      matrix_b_t = [[9, 9], [9, 9]], matrix_c = [[9, 9], [9, 9]]\<rparr> \<and>
   matrix_b (init 2 \<lparr>matrix_a = [[9, 9], [9, 9]], matrix_b = [[9, 9], [9, 9]],
      matrix_b_t = [[9, 9], [9, 9]], matrix_c = [[9, 9], [9, 9]]\<rparr>) = [[0, - 1], [1, 0]] \<and>
   matrix_b_t (init 2 \<lparr>matrix_a = [[9, 9], [9, 9]], matrix_b = [[9, 9], [9, 9]],
      matrix_b_t = [[9, 9], [9, 9]], matrix_c = [[9, 9], [9, 9]]\<rparr>) = [[0, 1], [- 1, 0]] \<and>
   (matrix_b_t (init 2 \<lparr>matrix_a = [[9, 9], [9, 9]], matrix_b = [[9, 9], [9, 9]],
      matrix_b_t = [[9, 9], [9, 9]], matrix_c = [[9, 9], [9, 9]]\<rparr>) ! 1) ! 0 =
   (matrix_b (init 2 \<lparr>matrix_a = [[9, 9], [9, 9]], matrix_b = [[9, 9], [9, 9]],
      matrix_b_t = [[9, 9], [9, 9]], matrix_c = [[9, 9], [9, 9]]\<rparr>) ! 0) ! 1 \<and>
   (matrix_c (init 2 \<lparr>matrix_a = [[9, 9], [9, 9]], matrix_b = [[9, 9], [9, 9]],
      matrix_b_t = [[9, 9], [9, 9]], matrix_c = [[9, 9], [9, 9]]\<rparr>) ! 1) ! 1 = 0"
proof -
  let ?s = "\<lparr>matrix_a = [[9, 9], [9, 9]], matrix_b = [[9, 9], [9, 9]],
      matrix_b_t = [[9, 9], [9, 9]], matrix_c = [[9, 9], [9, 9]]\<rparr>"
  have h: "wf_state 2 ?s"
    by code_simp
  have b: "matrix_b (init 2 ?s) = [[0, - 1], [1, 0]]"
    by code_simp
  have t: "matrix_b_t (init 2 ?s) = [[0, 1], [- 1, 0]]"
    by code_simp
  from init_correct [OF h]
  have "(matrix_b_t (init 2 ?s) ! 1) ! 0 = (matrix_b (init 2 ?s) ! 0) ! 1"
    and "(matrix_c (init 2 ?s) ! 1) ! 1 = 0"
    by simp_all
  with h b t show ?thesis by blast
qed

text \<open>
  C4. With dimension 4, \<^verbatim>\<open>init\<close> stores \<open>A[i][j] = i + j\<close> and \<open>B[i][j] = i - j\<close>, and the
  product has \<open>C[0][0] = 14\<close> and \<open>C[1][1] = 10\<close>: computed by the serial routine, by four
  workers, and by \<^verbatim>\<open>main\<close> run without an argument.
\<close>

theorem product_dim_4:
  "matrix_a (init 4 (zero_state 4)) = [[0, 1, 2, 3], [1, 2, 3, 4], [2, 3, 4, 5], [3, 4, 5, 6]] \<and>
   matrix_b (init 4 (zero_state 4)) =
     [[0, - 1, - 2, - 3], [1, 0, - 1, - 2], [2, 1, 0, - 1], [3, 2, 1, 0]] \<and>
   (matrix_c (multiply 4 (init 4 (zero_state 4))) ! 0) ! 0 = 14 \<and>
   (matrix_c (multiply 4 (init 4 (zero_state 4))) ! 1) ! 1 = 10 \<and>
   parallel_multiply 4 4 (init 4 (zero_state 4)) = Some (multiply 4 (init 4 (zero_state 4))) \<and>
   main all_ok 4 [''matrix''] = Some (Finished (multiply 4 (init 4 (zero_state 4))))"
proof -
  have a: "matrix_a (init 4 (zero_state 4)) =
      [[0, 1, 2, 3], [1, 2, 3, 4], [2, 3, 4, 5], [3, 4, 5, 6]]"
    by code_simp
  have b: "matrix_b (init 4 (zero_state 4)) =
      [[0, - 1, - 2, - 3], [1, 0, - 1, - 2], [2, 1, 0, - 1], [3, 2, 1, 0]]"
    by code_simp
  have c00: "(matrix_c (multiply 4 (init 4 (zero_state 4))) ! 0) ! 0 = 14"
    by code_simp
  have c11: "(matrix_c (multiply 4 (init 4 (zero_state 4))) ! 1) ! 1 = 10"
    by code_simp
  have p: "parallel_multiply 4 4 (init 4 (zero_state 4)) = Some (multiply 4 (init 4 (zero_state 4)))"
    by code_simp
  have m: "main all_ok 4 [''matrix''] = Some (Finished (multiply 4 (init 4 (zero_state 4))))"
    by code_simp
  from a b c00 c11 p m show ?thesis by blast
qed

text \<open>
  C5. For a worker count \<open>T \<ge> 1\<close> (the count \<^verbatim>\<open>main\<close> holds after reading the command line
  is always at least 1) and a dimension \<open>n \<ge> 1\<close>, the count used for the ranges is
  \<open>min T n\<close>: a count above \<open>n\<close> becomes \<open>n\<close>; there are \<open>min T n\<close> ranges and each has
  \<open>row_end > row_start\<close>.
\<close>

theorem clamp_nthreads_correct:
  assumes "1 \<le> T" and "1 \<le> n"
  shows "clamp_nthreads n T = min T (int n) \<and>
    (int n < T \<longrightarrow> clamp_nthreads n T = int n) \<and>
    length (partition_rows n (clamp_nthreads n T)) = nat (min T (int n)) \<and>
    (\<forall>a \<in> set (partition_rows n (clamp_nthreads n T)). row_start a < row_end a)"
proof -
  let ?U = "clamp_nthreads n T"
  have U: "0 < ?U" "?U \<le> int n" using assms by (simp_all add: clamp_nthreads_def)
  have m: "?U = min T (int n)" by (simp add: clamp_nthreads_def min_def)
  have "row_start a < row_end a" if "a \<in> set (partition_rows n ?U)" for a
  proof -
    from that obtain t where "t < nat ?U" "a = partition_rows n ?U ! t"
      by (auto simp: in_set_conv_nth partition_rows_length)
    with U show ?thesis by (simp add: partition_rows_nonempty)
  qed
  with m show ?thesis by (simp add: partition_rows_length)
qed

theorem clamp_nthreads_correct_witness:
  "(1 :: int) \<le> 4 \<and> (1 :: nat) \<le> 1 \<and> parse_nthreads [''matrix'', ''4''] = Some 4 \<and>
   clamp_nthreads 1 4 = 1 \<and>
   partition_rows 1 (clamp_nthreads 1 4) = [\<lparr>row_start = 0, row_end = 1\<rparr>] \<and>
   row_start (hd (partition_rows 1 (clamp_nthreads 1 4))) <
     row_end (hd (partition_rows 1 (clamp_nthreads 1 4))) \<and>
   main all_ok 1 [''matrix'', ''4''] =
     Some (Finished \<lparr>matrix_a = [[0]], matrix_b = [[0]], matrix_b_t = [[0]], matrix_c = [[0]]\<rparr>)"
proof -
  have h1: "(1 :: int) \<le> 4" and h2: "(1 :: nat) \<le> 1" by simp_all
  have p: "parse_nthreads [''matrix'', ''4''] = Some 4" by code_simp
  have c: "clamp_nthreads 1 4 = 1" by code_simp
  have r: "partition_rows 1 (clamp_nthreads 1 4) = [\<lparr>row_start = 0, row_end = 1\<rparr>]"
    by code_simp
  have m: "main all_ok 1 [''matrix'', ''4''] =
     Some (Finished \<lparr>matrix_a = [[0]], matrix_b = [[0]], matrix_b_t = [[0]], matrix_c = [[0]]\<rparr>)"
    by code_simp
  from clamp_nthreads_correct [OF h1 h2]
  have "\<forall>a \<in> set (partition_rows 1 (clamp_nthreads 1 4)). row_start a < row_end a"
    by blast
  moreover have "hd (partition_rows 1 (clamp_nthreads 1 4)) \<in>
      set (partition_rows 1 (clamp_nthreads 1 4))"
    by (simp only: r list.sel list.set insertI1)
  ultimately have "row_start (hd (partition_rows 1 (clamp_nthreads 1 4))) <
     row_end (hd (partition_rows 1 (clamp_nthreads 1 4)))"
    by (rule bspec)
  with h1 h2 p c r m show ?thesis by blast
qed

text \<open>
  C6. When the command line has no argument, or its first argument is unparsable as an
  integer (no digit after the white space and the sign), or \<^verbatim>\<open>atoi\<close> returns for it a value
  that is not positive, the worker count before the clamp is the default 4; and for every dimension
  \<open>n \<ge> 1\<close>, when the pthread calls succeed, \<^verbatim>\<open>main\<close> finishes with \<^verbatim>\<open>return 0\<close>.
\<close>

theorem default_nthreads:
  assumes "1 < length argv \<longrightarrow>
    unparsable (argv ! 1) \<or> (\<exists>v. atoi (argv ! 1) = Some v \<and> v \<le> 0)"
  shows "parse_nthreads argv = Some 4 \<and>
    (1 \<le> n \<longrightarrow> (\<exists>s'. main all_ok n argv = Some (Finished s')))"
proof -
  have p: "parse_nthreads argv = Some 4"
    using assms by (auto simp: parse_nthreads_def atoi_unparsable)
  from main_finishes [OF p] p show ?thesis by blast
qed

theorem default_nthreads_witness:
  "atoi ''-3'' = Some (- 3) \<and> unparsable ''abc'' \<and>
   parse_nthreads [''matrix''] = Some 4 \<and>
   parse_nthreads [''matrix'', ''abc''] = Some 4 \<and>
   parse_nthreads [''matrix'', ''-3''] = Some 4 \<and>
   (\<exists>s'. main all_ok 2 [''matrix'', ''-3''] = Some (Finished s'))"
proof -
  have a: "atoi ''-3'' = Some (- 3)" by code_simp
  have u: "unparsable ''abc''" by code_simp
  have h1: "1 < length [''matrix''] \<longrightarrow> unparsable ([''matrix''] ! 1) \<or>
      (\<exists>v. atoi ([''matrix''] ! 1) = Some v \<and> v \<le> 0)"
    by simp
  have h2: "1 < length [''matrix'', ''abc''] \<longrightarrow> unparsable ([''matrix'', ''abc''] ! 1) \<or>
      (\<exists>v. atoi ([''matrix'', ''abc''] ! 1) = Some v \<and> v \<le> 0)"
    using u by simp
  have h3: "1 < length [''matrix'', ''-3''] \<longrightarrow> unparsable ([''matrix'', ''-3''] ! 1) \<or>
      (\<exists>v. atoi ([''matrix'', ''-3''] ! 1) = Some v \<and> v \<le> 0)"
    using a by simp
  from default_nthreads [OF h1, of 2] default_nthreads [OF h2, of 2]
    default_nthreads [OF h3, of 2] a u
  show ?thesis by simp
qed

text \<open>
  C10, with the bound that the code has. For an argument that begins with a run of decimal
  digits whose value is at most \<open>INT_MAX\<close>, followed by nothing or by a character that is
  not a digit, the worker count before the clamp is that value when it is positive and
  the default 4 when it is 0. In general the count is the value \<^verbatim>\<open>atoi\<close> returns when that
  is positive and 4 otherwise; an argument with no digit after the white space and the
  sign gives 4.
\<close>

theorem numeric_prefix:
  assumes "1 < length argv" and "argv ! 1 = ds @ rest"
    and "ds \<noteq> []" and "list_all isdigit ds" and "rest = [] \<or> \<not> isdigit (hd rest)"
    and "decimal_value ds \<le> INT_MAX"
  shows "parse_nthreads argv = Some (if 0 < decimal_value ds then decimal_value ds else 4) \<and>
    (\<forall>args v. 1 < length args \<and> atoi (args ! 1) = Some v \<longrightarrow>
       parse_nthreads args = Some (if 0 < v then v else 4)) \<and>
    (\<forall>args. 1 < length args \<and> unparsable (args ! 1) \<longrightarrow> parse_nthreads args = Some 4)"
  using atoi_prefix [OF assms(3-6)] assms(1,2)
  by (simp add: parse_nthreads_def atoi_unparsable)

theorem numeric_prefix_witness:
  "''7'' \<noteq> [] \<and> list_all isdigit ''7'' \<and> \<not> isdigit (hd ''abc'') \<and>
   decimal_value ''7'' \<le> INT_MAX \<and> decimal_value ''7'' = 7 \<and>
   parse_nthreads [''matrix'', ''7abc''] = Some 7 \<and>
   parse_nthreads [''matrix'', ''0abc''] = Some 4"
proof -
  have h1: "''7'' \<noteq> []" by simp
  have h2: "list_all isdigit ''7''" by code_simp
  have h3: "''abc'' = [] \<or> \<not> isdigit (hd ''abc'')" by code_simp
  have h4: "decimal_value ''7'' \<le> INT_MAX" by code_simp
  have v: "decimal_value ''7'' = 7" by code_simp
  have z: "parse_nthreads [''matrix'', ''0abc''] = Some 4" by code_simp
  have n: "\<not> isdigit (hd ''abc'')" by code_simp
  have l: "1 < length [''matrix'', ''7abc'']" and e: "[''matrix'', ''7abc''] ! 1 = ''7'' @ ''abc''"
    by simp_all
  from numeric_prefix [OF l e h1 h2 h3 h4] h1 h2 n h4 v z
  show ?thesis by simp
qed

text \<open>
  C10 as stated fails where the run of digits denotes a number above \<open>INT_MAX\<close>: the
  worker count is an \<^verbatim>\<open>int\<close> and cannot be that number, and the contract of \<^verbatim>\<open>atoi\<close>
  leaves the result open.
\<close>

theorem numeric_prefix_counterexample:
  "list_all isdigit ''99999999999'' \<and> \<not> isdigit (hd ''abc'') \<and>
   decimal_value ''99999999999'' = 99999999999 \<and>
   INT_MAX < decimal_value ''99999999999'' \<and>
   parse_nthreads [''matrix'', ''99999999999abc''] \<noteq> Some (decimal_value ''99999999999'')"
proof -
  have 1: "list_all isdigit ''99999999999''" by code_simp
  have 2: "\<not> isdigit (hd ''abc'')" by code_simp
  have 3: "decimal_value ''99999999999'' = 99999999999" by code_simp
  have 4: "INT_MAX < decimal_value ''99999999999''" by code_simp
  have 5: "parse_nthreads [''matrix'', ''99999999999abc''] = None" by code_simp
  from 1 2 3 4 5 show ?thesis by simp
qed

end
